(* ===== verification/Pass_Prelude.thy ===== *)
theory Pass_Prelude
  imports Main "HOL-Library.Word"
begin

text \<open>
  Shared vocabulary of the pass-composition model.
  \<^item> \<open>error\<close>: the ways a pipeline run is aborted: a null \<open>Own<RamTransformer>\<close>
    dereferenced by a composite, a failed \<open>assert\<close> at construction, or a failure
    inside a leaf pass, which the core never catches.
  \<^item> \<open>'s outcome\<close>: the result of \<open>apply\<close>/\<open>transform\<close> on a state \<open>'s\<close>:
    \<open>None\<close> when the call does not return (an unbounded fixed-point loop),
    \<open>Some (Inl e)\<close> when it aborts, \<open>Some (Inr (changed, s'))\<close> when it returns the
    changed flag and the new state.
  \<^item> \<open>'c own\<close>: an owning pointer \<open>Own<T>\<close> (a \<open>std::unique_ptr\<close>), \<open>None\<close> for null.
  \<^item> \<open>own_apply\<close>: the call \<open>cur->apply(tU)\<close> through such a pointer, the only way the
    composites reach their children.
  \<^item> \<open>outcome_bind\<close>: continue with the flag and state of a returning call; abort and
    divergence propagate.
  \<^item> the signed comparison \<open>0 <s ctr\<close> on the 32-bit \<open>int\<close> counter of the loop.
\<close>

named_theorems pass_eval "rules that evaluate a pipeline run on a concrete input"

datatype error = Null_dereference | Assertion_failure | Pass_failure string

type_synonym 's outcome = "(error + bool \<times> 's) option"

type_synonym 'c own = "'c option"

type_synonym event = "string \<times> bool"

type_synonym int32 = "32 word"

definition own_apply :: "('c \<Rightarrow> 's \<Rightarrow> 's outcome) \<Rightarrow> 'c own \<Rightarrow> 's \<Rightarrow> 's outcome" where
  "own_apply ap p s = (case p of None \<Rightarrow> Some (Inl Null_dereference) | Some c \<Rightarrow> ap c s)"

definition outcome_bind :: "'s outcome \<Rightarrow> (bool \<Rightarrow> 's \<Rightarrow> 's outcome) \<Rightarrow> 's outcome" where
  "outcome_bind r k =
     (case r of None \<Rightarrow> None | Some (Inl e) \<Rightarrow> Some (Inl e) | Some (Inr (c, s)) \<Rightarrow> k c s)"

text \<open>
  \<open>outcome_map f\<close> views an outcome through an abstraction \<open>f\<close> of the state: the
  flag, the error and divergence are kept. It relates a run on a detailed state to a
  run on an abstract one.
\<close>

definition outcome_map :: "('s \<Rightarrow> 't) \<Rightarrow> 's outcome \<Rightarrow> 't outcome" where
  "outcome_map f r =
     (case r of None \<Rightarrow> None | Some (Inl e) \<Rightarrow> Some (Inl e) | Some (Inr (c, s)) \<Rightarrow> Some (Inr (c, f s)))"

lemma own_apply_None [simp, pass_eval]: "own_apply ap None s = Some (Inl Null_dereference)"
  by (simp add: own_apply_def)

lemma own_apply_Some [simp, pass_eval]: "own_apply ap (Some c) s = ap c s"
  by (simp add: own_apply_def)

lemma own_apply_Some_fun [simp]: "own_apply ap (Some c) = ap c"
  by (simp add: fun_eq_iff)

text \<open>
  The call through the pointer depends on the child's \<open>apply\<close> only at the child it
  points to: the congruence rule the function package needs to see that a composite
  recurses into its own children only.
\<close>

lemma own_apply_cong [fundef_cong]:
  "p = p' \<Longrightarrow> (\<And>c. p' = Some c \<Longrightarrow> ap c = ap' c) \<Longrightarrow> own_apply ap p = own_apply ap' p'"
  by (auto simp: own_apply_def fun_eq_iff split: option.splits)

lemma outcome_bind_simps [simp, pass_eval]:
  "outcome_bind None k = None"
  "outcome_bind (Some (Inl e)) k = Some (Inl e)"
  "outcome_bind (Some (Inr (c, s))) k = k c s"
  by (simp_all add: outcome_bind_def)

lemmas outcome_splits = option.splits sum.splits prod.splits

lemma outcome_bind_cong [fundef_cong]:
  "r = r' \<Longrightarrow> (\<And>c s. r' = Some (Inr (c, s)) \<Longrightarrow> k c s = k' c s) \<Longrightarrow>
   outcome_bind r k = outcome_bind r' k'"
  by (simp add: outcome_bind_def split: outcome_splits)

lemma outcome_bind_assoc:
  "outcome_bind (outcome_bind r f) g = outcome_bind r (\<lambda>c s. outcome_bind (f c s) g)"
  by (simp add: outcome_bind_def split: option.splits sum.splits prod.splits)

lemma outcome_bind_return [simp]: "outcome_bind r (\<lambda>c s. Some (Inr (c, s))) = r"
  by (simp add: outcome_bind_def split: option.splits sum.splits prod.splits)

lemma outcome_bind_eq_Inr:
  "outcome_bind r k = Some (Inr (c', s')) \<longleftrightarrow>
     (\<exists>c s. r = Some (Inr (c, s)) \<and> k c s = Some (Inr (c', s')))"
  by (simp add: outcome_bind_def split: option.splits sum.splits prod.splits)

lemma outcome_map_simps [simp, pass_eval]:
  "outcome_map f None = None"
  "outcome_map f (Some (Inl e)) = Some (Inl e)"
  "outcome_map f (Some (Inr (c, s))) = Some (Inr (c, f s))"
  by (simp_all add: outcome_map_def)

lemma outcome_map_eq_iff:
  "outcome_map f r = None \<longleftrightarrow> r = None"
  "outcome_map f r = Some (Inl e) \<longleftrightarrow> r = Some (Inl e)"
  "outcome_map f r = Some (Inr (c, t)) \<longleftrightarrow> (\<exists>s. r = Some (Inr (c, s)) \<and> f s = t)"
  by (auto simp: outcome_map_def split: outcome_splits)

lemma outcome_cases [case_names Diverges Aborts Returns]:
  obtains "r = None" | e where "r = Some (Inl e)" | c s where "r = Some (Inr (c, s))"
  by (metis old.prod.exhaust option.exhaust sum.exhaust)

text \<open>Abstraction commutes with continuing a run, when it commutes with the continuation.\<close>

lemma outcome_map_bind:
  assumes "outcome_map f r = r'"
    and "\<And>c s. outcome_map f (k c s) = k' c (f s)"
  shows "outcome_map f (outcome_bind r k) = outcome_bind r' k'"
  unfolding assms(1) [symmetric] by (cases r rule: outcome_cases) (simp_all add: assms(2))

subsection \<open>The 32-bit loop counter\<close>

text \<open>
  \<open>int ctr\<close> is a 32-bit two's-complement integer; \<open>ctr++\<close> wraps (signed overflow is
  undefined in C++, wrap-around is what the generated code does), and \<open>ctr > 0\<close> is the
  signed comparison \<open>0 <s ctr\<close>. Below \<open>2 ^ 31\<close> increments it agrees with the
  unbounded count; at \<open>2 ^ 31\<close> it reads as negative.
\<close>

lemma sless_zero_word_of_nat:
  fixes k :: nat
  assumes "k < 2 ^ (LENGTH('a) - 1)"
  shows "((0::'a::len word) <s word_of_nat k) = (0 < k)"
proof -
  have lt: "int k < 2 ^ (LENGTH('a) - 1)"
    using assms by (metis of_nat_less_iff of_nat_numeral of_nat_power)
  have "- (2 ^ (LENGTH('a) - 1)) \<le> (0::int)" by simp
  then have ge: "- (2 ^ (LENGTH('a) - 1)) \<le> int k" by linarith
  have "signed_take_bit (LENGTH('a) - 1) (int k) = int k"
    by (rule signed_take_bit_int_eq_self [OF ge lt])
  then have "sint (word_of_nat k :: 'a word) = int k"
    by (simp add: signed_of_nat)
  then show ?thesis by (simp add: word_sless_alt)
qed

lemma word_of_nat_Suc_add: "(c::'a::len word) + word_of_nat k + 1 = c + word_of_nat (Suc k)"
  by simp

text \<open>
  The flag after any number of increments: \<open>ctr > 0\<close> holds exactly when the count
  modulo \<open>2 ^ 32\<close> is positive and below \<open>2 ^ 31\<close>.
\<close>

lemma word_of_nat_mod32: "(word_of_nat n :: int32) = word_of_nat (n mod 2 ^ 32)"
  by (simp add: word_unat_eq_iff unat_of_nat)

lemma sless_zero_high:
  assumes "2 ^ 31 \<le> m" "m < (2::nat) ^ 32"
  shows "\<not> ((0::int32) <s word_of_nat m)"
proof -
  have "m div 2 ^ 31 = 1" using assms by (simp add: div_nat_eqI)
  then have "bit m 31" by (simp add: bit_iff_odd)
  then have "bit (word_of_nat m :: int32) (LENGTH(32) - Suc 0)" by (simp add: bit_of_nat_iff possible_bit_def)
  then have "sint (word_of_nat m :: int32) < 0" by (simp only: bit_last_iff)
  then show ?thesis by (simp add: word_sless_alt)
qed

lemma int32_sless_zero_iff:
  "((0::int32) <s word_of_nat n) = (0 < n mod 2 ^ 32 \<and> n mod 2 ^ 32 < 2 ^ 31)"
proof -
  let ?m = "n mod 2 ^ 32"
  have "((0::int32) <s word_of_nat n) = ((0::int32) <s word_of_nat ?m)"
    by (simp only: word_of_nat_mod32 [of n])
  also have "\<dots> = (0 < ?m \<and> ?m < 2 ^ 31)"
  proof (cases "?m < 2 ^ 31")
    case True
    then show ?thesis using sless_zero_word_of_nat [of ?m, where 'a = 32] by simp
  next
    case False
    moreover have "?m < 2 ^ 32" by simp
    ultimately show ?thesis using sless_zero_high [of ?m] by simp
  qed
  finally show ?thesis .
qed

declare word_sless_alt [pass_eval]

end
