(* ===== verification/Translation_Unit.thy ===== *)
theory Translation_Unit
  imports Pass_Prelude
begin

text \<open>
  The compilation unit (\<open>RamTranslationUnit\<close>) the passes rewrite. Its header is not
  under \<open>src/\<close>; it is modelled from the spec (sections 3 and 4.1): an opaque program
  \<open>'p\<close> and a cache of analyses computed from it, keyed by name (\<open>getAnalysis<A>()\<close>
  computes an analysis on first request and caches it; the cache is invalidated when a
  pass reports a change). \<open>analyses_valid ana\<close> says that every cached analysis is the
  one \<open>ana\<close> computes from the current program: the cache is only a cache. The lemmas
  show that a lookup through a valid cache returns the fresh value, keeps the cache
  valid, and that invalidation restores validity after any change of the program.
\<close>

record ('p, 'a) translation_unit =
  program :: 'p
  analyses :: "(string \<times> 'a) list"

definition get_analysis ::
  "(string \<Rightarrow> 'p \<Rightarrow> 'a) \<Rightarrow> string \<Rightarrow> ('p, 'a) translation_unit \<Rightarrow> 'a \<times> ('p, 'a) translation_unit" where
  "get_analysis ana n tu =
     (case map_of (analyses tu) n of
        Some a \<Rightarrow> (a, tu)
      | None \<Rightarrow> (let a = ana n (program tu) in (a, tu\<lparr>analyses := (n, a) # analyses tu\<rparr>)))"

definition invalidate_analyses :: "('p, 'a) translation_unit \<Rightarrow> ('p, 'a) translation_unit" where
  "invalidate_analyses tu = tu\<lparr>analyses := []\<rparr>"

definition analyses_valid :: "(string \<Rightarrow> 'p \<Rightarrow> 'a) \<Rightarrow> ('p, 'a) translation_unit \<Rightarrow> bool" where
  "analyses_valid ana tu = list_all (\<lambda>(n, a). a = ana n (program tu)) (analyses tu)"

declare invalidate_analyses_def [pass_eval] get_analysis_def [pass_eval]

lemma invalidate_analyses_valid [simp]: "analyses_valid ana (invalidate_analyses tu)"
  by (simp add: analyses_valid_def invalidate_analyses_def)

lemma invalidate_analyses_program [simp]: "program (invalidate_analyses tu) = program tu"
  by (simp add: invalidate_analyses_def)

lemma analyses_valid_map_of:
  "analyses_valid ana tu \<Longrightarrow> map_of (analyses tu) n = Some a \<Longrightarrow> a = ana n (program tu)"
  by (auto simp: analyses_valid_def list_all_iff dest: map_of_SomeD)

lemma get_analysis_program [simp]: "program (snd (get_analysis ana n tu)) = program tu"
  by (simp add: get_analysis_def Let_def split: option.splits)

text \<open>A lookup through a valid cache is the analysis of the current program.\<close>

theorem get_analysis_fresh:
  "analyses_valid ana tu \<Longrightarrow> fst (get_analysis ana n tu) = ana n (program tu)"
  by (auto simp: get_analysis_def Let_def dest: analyses_valid_map_of split: option.splits)

text \<open>A lookup keeps the cache valid (a new entry is computed from the program).\<close>

theorem get_analysis_valid:
  "analyses_valid ana tu \<Longrightarrow> analyses_valid ana (snd (get_analysis ana n tu))"
  by (simp add: get_analysis_def analyses_valid_def Let_def split: option.splits)

text \<open>
  The cache round trip: a second request for the same analysis is answered from
  the cache the first one filled: it returns the same value and leaves the unit as the
  first request left it.
\<close>

theorem get_analysis_cached:
  "get_analysis ana n (snd (get_analysis ana n tu)) = get_analysis ana n tu"
  by (simp add: get_analysis_def Let_def split: option.splits)


theorem get_analysis_fresh_witness:
  "analyses_valid (\<lambda>n p. p + length n) \<lparr>program = (3::nat), analyses = [(''ab'', 5)]\<rparr> \<and>
   fst (get_analysis (\<lambda>n p. p + length n) ''ab'' \<lparr>program = 3, analyses = [(''ab'', 5)]\<rparr>) = 5"
proof -
  have h: "analyses_valid (\<lambda>n p. p + length n) \<lparr>program = (3::nat), analyses = [(''ab'', 5)]\<rparr>"
    by (simp add: analyses_valid_def)
  show ?thesis using h get_analysis_fresh [OF h, of "''ab''"] by simp
qed

theorem get_analysis_valid_witness:
  "analyses_valid (\<lambda>n p. p + length n) \<lparr>program = (3::nat), analyses = [(''ab'', 5)]\<rparr> \<and>
   analyses_valid (\<lambda>n p. p + length n)
     (snd (get_analysis (\<lambda>n p. p + length n) ''c'' \<lparr>program = 3, analyses = [(''ab'', 5)]\<rparr>))"
proof -
  have h: "analyses_valid (\<lambda>n p. p + length n) \<lparr>program = (3::nat), analyses = [(''ab'', 5)]\<rparr>"
    by (simp add: analyses_valid_def)
  show ?thesis using h get_analysis_valid [OF h, of "''c''"] by simp
qed

end
