(* ===== verification/Transformer_Sequence.thy ===== *)
theory Transformer_Sequence
  imports Pass_Prelude
begin

text \<open>
  \<open>RamTransformerSequence\<close> (\<open>src/ram/transform/Sequence.h\<close>). The composite owns a
  vector of \<open>Own<RamTransformer>\<close> and its \<open>transform\<close> applies them once each, in
  order, overwriting \<open>changed\<close> with each result: the last child decides the flag.
  The model is generic in the state \<open>'s\<close> and in the children's type \<open>'c\<close>: a
  sequence only calls \<open>ap\<close>, the \<open>apply\<close> of its children, through \<open>own_apply\<close>, and
  never looks at the unit. Theory \<open>Transformer\<close> instantiates \<open>ap\<close> with the
  pipeline's own \<open>apply\<close>. The constructor, which builds the tree node, is there too.

  Lemmas: the run of a concatenation is the run of the first part followed by the second
  (\<open>seq_loop_append\<close>); the flag and state of a non-empty sequence are those of its last
  child on the state the others left (\<open>seq_transform_snoc\<close>); the first failing child
  aborts the sequence and no later child runs (\<open>seq_transform_error\<close>); a state
  invariant every child keeps is kept by the sequence (\<open>seq_loop_invariant\<close>); a
  sequence of non-null children that all return, returns (\<open>seq_loop_returns\<close>); the
  loop is the spec's left fold \<open>seq_reference\<close> (\<open>seq_transform_eq_reference\<close>); every
  child runs once, in order, whatever the flags (\<open>seq_transform_invokes_all\<close>).
\<close>

definition sequence_name :: string where
  "sequence_name = ''RamTransformerSequence''"

fun seq_loop :: "('c \<Rightarrow> 's \<Rightarrow> 's outcome) \<Rightarrow> 'c own list \<Rightarrow> bool \<Rightarrow> 's \<Rightarrow> 's outcome" where
  "seq_loop ap [] changed s = Some (Inr (changed, s))"
| "seq_loop ap (cur # rest) changed s =
     (case own_apply ap cur s of
        None \<Rightarrow> None
      | Some (Inl e) \<Rightarrow> Some (Inl e)
      | Some (Inr (c, s')) \<Rightarrow> seq_loop ap rest c s')"

definition seq_transform :: "('c \<Rightarrow> 's \<Rightarrow> 's outcome) \<Rightarrow> 'c own list \<Rightarrow> 's \<Rightarrow> 's outcome" where
  "seq_transform ap transformers s = seq_loop ap transformers False s"

text \<open>
  The reference semantics of spec 4.2 as a left fold: start from \<open>changed := false\<close>,
  and for each sub-pass in order overwrite \<open>changed\<close> with its result.
\<close>

definition seq_reference :: "('c \<Rightarrow> 's \<Rightarrow> 's outcome) \<Rightarrow> 'c own list \<Rightarrow> 's \<Rightarrow> 's outcome" where
  "seq_reference ap ts s =
     foldl (\<lambda>r cur. outcome_bind r (\<lambda>_ s'. own_apply ap cur s')) (Some (Inr (False, s))) ts"

declare seq_transform_def [pass_eval]

lemma seq_loop_Cons [simp]:
  "seq_loop ap (cur # rest) changed s = outcome_bind (own_apply ap cur s) (seq_loop ap rest)"
  by (simp add: outcome_bind_def split: outcome_splits)

declare seq_loop.simps(2) [simp del]

lemma seq_loop_cong [fundef_cong]:
  assumes "ts = ts'" and "\<And>c. Some c \<in> set ts' \<Longrightarrow> ap c = ap' c"
  shows "seq_loop ap ts = seq_loop ap' ts'"
proof -
  have "seq_loop ap ts' ch s = seq_loop ap' ts' ch s" for ch s
    using assms(2)
  proof (induction ts' arbitrary: ch s)
    case Nil
    then show ?case by simp
  next
    case (Cons t ts)
    have "own_apply ap t = own_apply ap' t"
      by (rule own_apply_cong) (use Cons.prems in auto)
    moreover have "seq_loop ap ts = seq_loop ap' ts"
      using Cons by (auto simp: fun_eq_iff)
    ultimately show ?case by simp
  qed
  with assms(1) show ?thesis by (auto simp: fun_eq_iff)
qed

lemma seq_transform_cong [fundef_cong]:
  assumes "ts = ts'" and "\<And>c. Some c \<in> set ts' \<Longrightarrow> ap c = ap' c"
  shows "seq_transform ap ts = seq_transform ap' ts'"
proof -
  have "seq_loop ap ts = seq_loop ap' ts'"
    using assms by (rule seq_loop_cong)
  then show ?thesis by (simp add: seq_transform_def fun_eq_iff)
qed

lemma seq_loop_append:
  "seq_loop ap (xs @ ys) changed s = outcome_bind (seq_loop ap xs changed s) (seq_loop ap ys)"
  by (induction xs arbitrary: changed s) (simp_all add: outcome_bind_assoc cong: outcome_bind_cong)

text \<open>
  C1: the last child decides. Running \<open>ts @ [t]\<close> is running \<open>ts\<close>, dropping its flag,
  and returning exactly what \<open>t\<close> returns on the state \<open>ts\<close> left: the flag is not the
  disjunction of the children's flags, and \<open>t\<close> runs whatever \<open>ts\<close> reported.
\<close>

theorem seq_transform_snoc:
  "seq_transform ap (ts @ [t]) s = outcome_bind (seq_transform ap ts s) (\<lambda>_ s'. own_apply ap t s')"
  by (simp add: seq_transform_def seq_loop_append cong: outcome_bind_cong)

text \<open>
  C6: an abort inside a sequence aborts it with the same error, whatever follows: the
  children after the failing one never run.
\<close>

theorem seq_transform_error:
  assumes "seq_transform ap xs s = Some (Inr (c, s'))"
    and "own_apply ap t s' = Some (Inl e)"
  shows "seq_transform ap (xs @ t # ys) s = Some (Inl e)"
  using assms by (simp add: seq_transform_def seq_loop_append seq_loop_Cons)

lemma seq_loop_invariant:
  assumes "seq_loop ap ts b s = Some (Inr (c, s'))"
    and "P s"
    and "\<And>x t t' d. Some x \<in> set ts \<Longrightarrow> P t \<Longrightarrow> ap x t = Some (Inr (d, t')) \<Longrightarrow> P t'"
  shows "P s'"
  using assms
proof (induction ts arbitrary: b s)
  case Nil
  then show ?case by simp
next
  case (Cons x ts)
  from Cons.prems(1) obtain d t where
    x: "own_apply ap x s = Some (Inr (d, t))" and rest: "seq_loop ap ts d t = Some (Inr (c, s'))"
    by (auto simp: seq_loop_Cons outcome_bind_eq_Inr)
  from x obtain y where "x = Some y" and "ap y s = Some (Inr (d, t))"
    by (cases x) auto
  with Cons.prems(2,3) have "P t" by auto
  with rest Cons.prems(3) show ?case
    by (intro Cons.IH [of d t]) auto
qed

lemma seq_loop_returns:
  fixes ap :: "'c \<Rightarrow> 's \<Rightarrow> 's outcome"
  assumes "\<forall>x \<in> set ts. \<exists>y. x = Some y \<and> (\<forall>t. P t \<longrightarrow> (\<exists>r. ap y t = Some r))"
    and "\<And>x t t' d. Some x \<in> set ts \<Longrightarrow> P t \<Longrightarrow> ap x t = Some (Inr (d, t')) \<Longrightarrow> P t'"
    and "P s"
  shows "\<exists>r. seq_loop ap ts b s = Some r"
  using assms
proof (induction ts arbitrary: b s)
  case Nil
  then show ?case by simp
next
  case (Cons x ts)
  from Cons.prems(1) obtain y where x: "x = Some y" and y: "\<forall>t. P t \<longrightarrow> (\<exists>r. ap y t = Some r)"
    by auto
  with Cons.prems(3) obtain r where r: "ap y s = Some r" by blast
  show ?case
  proof (cases r)
    case (Inl e)
    with x r show ?thesis by (simp add: seq_loop_Cons)
  next
    case (Inr ds)
    then obtain d t where "r = Inr (d, t)" by (cases ds) auto
    with x r Cons.prems(2,3) have "P t" by auto
    have all: "\<forall>x \<in> set ts. \<exists>y. x = Some y \<and> (\<forall>t. P t \<longrightarrow> (\<exists>r. ap y t = Some r))"
      using Cons.prems(1) by simp
    have step: "\<And>x t t' d. Some x \<in> set ts \<Longrightarrow> P t \<Longrightarrow> ap x t = Some (Inr (d, t')) \<Longrightarrow> P t'"
      using Cons.prems(2) by (metis list.set_intros(2))
    have "\<exists>r'. seq_loop ap ts d t = Some r'"
      using all step \<open>P t\<close> by (rule Cons.IH)
    then obtain r' where "seq_loop ap ts d t = Some r'" by blast
    with x r \<open>r = Inr (d, t)\<close> show ?thesis by (simp add: seq_loop_Cons)
  qed
qed

lemma seq_transform_invariant:
  "seq_transform ap ts s = Some (Inr (c, s')) \<Longrightarrow> P s \<Longrightarrow>
   (\<And>x t t' d. Some x \<in> set ts \<Longrightarrow> P t \<Longrightarrow> ap x t = Some (Inr (d, t')) \<Longrightarrow> P t') \<Longrightarrow> P s'"
  unfolding seq_transform_def by (rule seq_loop_invariant)

text \<open>
  An abort of a sequence is a null element or an abort of one of its children: the
  composite adds no error of its own.
\<close>

lemma seq_loop_error_source:
  "seq_loop ap ts b s = Some (Inl e) \<Longrightarrow>
   (None \<in> set ts \<and> e = Null_dereference) \<or> (\<exists>x t. Some x \<in> set ts \<and> ap x t = Some (Inl e))"
proof (induction ts arbitrary: b s)
  case Nil
  then show ?case by simp
next
  case (Cons x ts)
  show ?case
  proof (cases "own_apply ap x s")
    case None
    with Cons.prems show ?thesis by simp
  next
    case (Some r)
    show ?thesis
    proof (cases r)
      case (Inl e')
      with Some Cons.prems show ?thesis by (cases x) auto
    next
      case (Inr cs)
      with Some Cons.prems Cons.IH show ?thesis by (cases cs) fastforce
    qed
  qed
qed

lemma seq_loop_total:
  "(\<And>x t. Some x \<in> set ts \<Longrightarrow> ap x t \<noteq> None) \<Longrightarrow> seq_loop ap ts c s \<noteq> None"
proof (induction ts arbitrary: c s)
  case Nil
  then show ?case by simp
next
  case (Cons cur rest)
  have "own_apply ap cur s \<noteq> None"
    using Cons.prems by (cases cur) simp_all
  moreover have "seq_loop ap rest d t \<noteq> None" for d t
    using Cons.prems by (intro Cons.IH) auto
  ultimately show ?case
    by (cases "own_apply ap cur s" rule: outcome_cases) simp_all
qed

lemma seq_transform_total:
  "(\<And>x t. Some x \<in> set ts \<Longrightarrow> ap x t \<noteq> None) \<Longrightarrow> seq_transform ap ts s \<noteq> None"
  unfolding seq_transform_def by (rule seq_loop_total)

lemma seq_transform_error_source:
  "seq_transform ap ts s = Some (Inl e) \<Longrightarrow>
   (None \<in> set ts \<and> e = Null_dereference) \<or> (\<exists>x t. Some x \<in> set ts \<and> ap x t = Some (Inl e))"
  unfolding seq_transform_def by (rule seq_loop_error_source)

text \<open>
  Simulation: when every child's \<open>apply\<close> commutes with an abstraction \<open>f\<close> of the state,
  so does the sequence; the abstract sequence runs the same children on the abstract
  state.
\<close>

lemma seq_loop_map:
  assumes "\<And>x t. Some x \<in> set ts \<Longrightarrow> outcome_map f (ap x t) = ap' x (f t)"
  shows "outcome_map f (seq_loop ap ts changed s) = seq_loop ap' ts changed (f s)"
  using assms
proof (induction ts arbitrary: changed s)
  case Nil
  then show ?case by simp
next
  case (Cons cur rest)
  have "outcome_map f (own_apply ap cur s) = own_apply ap' cur (f s)"
    using Cons.prems by (cases cur) simp_all
  moreover have "outcome_map f (seq_loop ap rest c t) = seq_loop ap' rest c (f t)" for c t
    using Cons.prems by (intro Cons.IH) simp
  ultimately show ?case by (simp add: outcome_map_bind)
qed

lemma seq_transform_map:
  "(\<And>x t. Some x \<in> set ts \<Longrightarrow> outcome_map f (ap x t) = ap' x (f t)) \<Longrightarrow>
   outcome_map f (seq_transform ap ts s) = seq_transform ap' ts (f s)"
  unfolding seq_transform_def by (rule seq_loop_map)

lemma seq_loop_log:
  assumes "\<And>x t. Some x \<in> set ts \<Longrightarrow> \<exists>c t'. ap x t = Some (Inr (c, t')) \<and> log t' = log t @ [x]"
    and "None \<notin> set ts"
  shows "\<exists>c s'. seq_loop ap ts b s = Some (Inr (c, s')) \<and> log s' = log s @ map the ts"
  using assms
proof (induction ts arbitrary: b s)
  case Nil
  then show ?case by simp
next
  case (Cons cur rest)
  then obtain x where cur: "cur = Some x" by (cases cur) auto
  with Cons.prems(1) obtain c t' where x: "ap x s = Some (Inr (c, t'))" "log t' = log s @ [x]"
    by fastforce
  from Cons.prems have "\<exists>d s'. seq_loop ap rest c t' = Some (Inr (d, s')) \<and> log s' = log t' @ map the rest"
    by (intro Cons.IH) auto
  with cur x show ?case by simp
qed

text \<open>
  C15: no short-circuit. When every child returns and its \<open>apply\<close> appends the child to a
  log, a sequence of non-null children returns, and its log grows by exactly its
  children in declaration order, whatever flags they report.
\<close>

theorem seq_transform_invokes_all:
  assumes "\<And>x t. Some x \<in> set ts \<Longrightarrow> \<exists>c t'. ap x t = Some (Inr (c, t')) \<and> log t' = log t @ [x]"
    and "None \<notin> set ts"
  shows "\<exists>c s'. seq_transform ap ts s = Some (Inr (c, s')) \<and> log s' = log s @ map the ts"
  unfolding seq_transform_def using assms by (rule seq_loop_log)

lemma foldl_outcome_bind_stuck:
  "foldl (\<lambda>r cur. outcome_bind r (k cur)) None ts = None"
  "foldl (\<lambda>r cur. outcome_bind r (k cur)) (Some (Inl e)) ts = Some (Inl e)"
  by (induction ts) simp_all

lemma seq_loop_foldl:
  "seq_loop ap ts changed s =
   foldl (\<lambda>r cur. outcome_bind r (\<lambda>_ s'. own_apply ap cur s')) (Some (Inr (changed, s))) ts"
proof (induction ts arbitrary: changed s)
  case Nil
  then show ?case by simp
next
  case (Cons cur rest)
  show ?case
    by (cases "own_apply ap cur s" rule: outcome_cases) (simp_all add: foldl_outcome_bind_stuck Cons.IH)
qed

text \<open>
  C17: the code's loop is the spec's fold. \<open>RamTransformerSequence::transform\<close>
  computes exactly the left fold that starts from \<open>changed = false\<close> and overwrites
  the flag with each child's result, aborts and divergence included.
\<close>

theorem seq_transform_eq_reference: "seq_transform ap ts s = seq_reference ap ts s"
  by (simp add: seq_transform_def seq_reference_def seq_loop_foldl)


theorem seq_transform_error_witness:
  "seq_transform (\<lambda>c s. if c = (1::nat) then Some (Inl (Pass_failure ''boom'')) else Some (Inr (True, Suc s)))
     [Some 0] (0::nat) = Some (Inr (True, 1)) \<and>
   own_apply (\<lambda>c s. if c = (1::nat) then Some (Inl (Pass_failure ''boom'')) else Some (Inr (True, Suc s)))
     (Some 1) 1 = Some (Inl (Pass_failure ''boom'')) \<and>
   seq_transform (\<lambda>c s. if c = (1::nat) then Some (Inl (Pass_failure ''boom'')) else Some (Inr (True, Suc s)))
     ([Some 0] @ Some 1 # [Some 0]) 0 = Some (Inl (Pass_failure ''boom''))"
proof -
  let ?ap = "\<lambda>c s. if c = (1::nat) then Some (Inl (Pass_failure ''boom'')) else Some (Inr (True, Suc s))"
  have h1: "seq_transform ?ap [Some 0] (0::nat) = Some (Inr (True, 1))"
    by (simp add: seq_transform_def)
  have h2: "own_apply ?ap (Some 1) 1 = Some (Inl (Pass_failure ''boom''))"
    by simp
  show ?thesis using h1 h2 seq_transform_error [OF h1 h2, of "[Some 0]"] by simp
qed

theorem seq_transform_invokes_all_witness:
  "(\<exists>c s'. seq_transform (\<lambda>x (l, n). Some (Inr (x = (2::nat), (l @ [x], n + x)))) [Some 1, Some 2, Some 3] ([], 0::nat) =
      Some (Inr (c, s')) \<and> fst s' = fst ([] :: nat list, 0::nat) @ map the [Some 1, Some (2::nat), Some 3]) \<and>
   seq_transform (\<lambda>x (l, n). Some (Inr (x = (2::nat), (l @ [x], n + x)))) [Some 1, Some 2, Some 3] ([], 0::nat) =
      Some (Inr (False, ([1, 2, 3], 6)))"
proof -
  let ?ap = "\<lambda>x (l, n). Some (Inr (x = (2::nat), (l @ [x], n + x)))"
  have h1: "\<exists>c t'. ?ap x t = Some (Inr (c, t')) \<and> fst t' = fst t @ [x]" for x and t :: "nat list \<times> nat"
    by (cases t) simp
  have h2: "None \<notin> set [Some 1, Some (2::nat), Some 3]" by simp
  have e: "seq_transform ?ap [Some 1, Some 2, Some 3] ([], 0::nat) = Some (Inr (False, ([1, 2, 3], 6)))"
    by (simp add: seq_transform_def)
  show ?thesis using seq_transform_invokes_all [where log = fst, OF h1 h2, of "([], 0)"] e by blast
qed

end
