(* ===== verification/Loop_Transformer.thy ===== *)
theory Loop_Transformer
  imports Pass_Prelude
begin

text \<open>
  \<open>RamLoopTransformer\<close> (\<open>src/ram/transform/Loop.h\<close>). The composite owns one
  \<open>Own<RamTransformer>\<close>, the body, and its \<open>transform\<close> is
  \<^verbatim>\<open>int ctr = 0; while (loop->apply(tU)) { ctr++; } return ctr > 0;\<close>
  The loop has no bound, so \<open>loop_iter\<close> is a \<open>partial_function (option)\<close>: \<open>None\<close>
  is a run that never ends. \<open>ctr\<close> is the 32-bit \<open>int32\<close>, incremented with
  wrap-around, and \<open>ctr > 0\<close> is the signed comparison. Like the sequence, the loop is
  generic in the state and reaches its body only through \<open>own_apply\<close>.

  \<open>changes body k s s'\<close> says that the body, started in \<open>s\<close>, reports a change \<open>k\<close>
  times in a row and reaches \<open>s'\<close>. It is the abstract view of a loop run: a run that
  returns is \<open>k\<close> changing iterations followed by one that reports no change
  (\<open>loop_iter_changes\<close>) or aborts (\<open>loop_iter_error\<close>), and every returning run
  has that shape (\<open>loop_iter_returns\<close>). The flag is \<open>0 <s ctr\<close> for the wrapped
  count; below \<open>2 ^ 31\<close> changing iterations it is \<open>0 < k\<close>
  (\<open>loop_transform_reports\<close>), and for any \<open>k\<close> it holds exactly when
  \<open>k mod 2 ^ 32\<close> lies in \<open>[1, 2 ^ 31)\<close> (\<open>loop_transform_wraps\<close>). The big-step
  relation \<open>loop_sem\<close> is the proof device for rule induction over a returning run
  (\<open>loop_iter_eq_loop_sem\<close>). A body
  that keeps reporting a change makes the loop diverge (\<open>loop_iter_diverges\<close>); a
  measure that every changing iteration decreases makes it return
  (\<open>loop_iter_terminates\<close>).
\<close>

definition loop_name :: string where
  "loop_name = ''RamLoopTransformer''"

partial_function (option) loop_iter :: "('s \<Rightarrow> 's outcome) \<Rightarrow> int32 \<Rightarrow> 's \<Rightarrow> 's outcome" where
  "loop_iter body ctr s =
     (case body s of
        None \<Rightarrow> None
      | Some (Inl e) \<Rightarrow> Some (Inl e)
      | Some (Inr (c, s')) \<Rightarrow> if c then loop_iter body (ctr + 1) s' else Some (Inr (0 <s ctr, s')))"

definition loop_transform :: "('c \<Rightarrow> 's \<Rightarrow> 's outcome) \<Rightarrow> 'c own \<Rightarrow> 's \<Rightarrow> 's outcome" where
  "loop_transform ap loop s = loop_iter (own_apply ap loop) 0 s"

declare loop_transform_def [pass_eval] loop_iter.simps [pass_eval]

inductive changes :: "('s \<Rightarrow> 's outcome) \<Rightarrow> nat \<Rightarrow> 's \<Rightarrow> 's \<Rightarrow> bool" for body where
  changes_0: "changes body 0 s s"
| changes_Suc: "body s = Some (Inr (True, s1)) \<Longrightarrow> changes body k s1 s2 \<Longrightarrow> changes body (Suc k) s s2"

inductive_cases changes_SucE: "changes body (Suc k) s s'"
inductive_cases changes_0E: "changes body 0 s s'"

text \<open>
  The loop as a big-step relation, one rule per way an iteration ends: the reference
  semantics that \<open>loop_iter\<close> is proved equal to.
\<close>

inductive loop_sem :: "('s \<Rightarrow> 's outcome) \<Rightarrow> int32 \<Rightarrow> 's \<Rightarrow> error + bool \<times> 's \<Rightarrow> bool" for body where
  loop_stop: "body s = Some (Inr (False, s')) \<Longrightarrow> loop_sem body ctr s (Inr (0 <s ctr, s'))"
| loop_abort: "body s = Some (Inl e) \<Longrightarrow> loop_sem body ctr s (Inl e)"
| loop_again: "body s = Some (Inr (True, s')) \<Longrightarrow> loop_sem body (ctr + 1) s' r \<Longrightarrow> loop_sem body ctr s r"

lemma loop_transform_cong [fundef_cong]:
  assumes "b = b'" and "\<And>c. b' = Some c \<Longrightarrow> ap c = ap' c"
  shows "loop_transform ap b = loop_transform ap' b'"
proof -
  have "own_apply ap b = own_apply ap' b'"
    using assms by (rule own_apply_cong)
  then show ?thesis by (intro ext) (simp add: loop_transform_def)
qed

text \<open>One iteration: the body runs first, then its result is tested (a do-while in effect).\<close>

lemma loop_iter_unfold:
  "loop_iter body ctr s =
     outcome_bind (body s) (\<lambda>c s'. if c then loop_iter body (ctr + 1) s' else Some (Inr (0 <s ctr, s')))"
  by (subst loop_iter.simps) (simp add: outcome_bind_def split: outcome_splits)

lemma changes_snoc:
  "changes body k s s1 \<Longrightarrow> body s1 = Some (Inr (True, s2)) \<Longrightarrow> changes body (Suc k) s s2"
  by (induction rule: changes.induct) (auto intro: changes.intros)

lemma changes_first:
  "changes body k s s1 \<Longrightarrow> 0 < k \<Longrightarrow> \<exists>s'. body s = Some (Inr (True, s'))"
  by (induction rule: changes.induct) auto

lemma loop_iter_changes_run:
  "changes body k s s1 \<Longrightarrow> body s1 = Some (Inr (False, s')) \<Longrightarrow>
   loop_iter body ctr s = Some (Inr (0 <s (ctr + word_of_nat k), s'))"
proof (induction arbitrary: ctr rule: changes.induct)
  case (changes_0 s)
  then show ?case by (subst loop_iter_unfold) simp
next
  case (changes_Suc s s1 k s2)
  have "loop_iter body ctr s = loop_iter body (ctr + 1) s1"
    by (subst loop_iter_unfold) (simp add: changes_Suc.hyps(1))
  also have "\<dots> = Some (Inr (0 <s (ctr + 1 + word_of_nat k), s'))"
    using changes_Suc.IH changes_Suc.prems by blast
  also have "ctr + 1 + word_of_nat k = ctr + word_of_nat (Suc k)"
    by simp
  finally show ?case .
qed

text \<open>
  C2: a loop whose body reports a change \<open>k\<close> times and then no change returns the
  state of that last call, with the flag \<open>0 <s ctr\<close> for the counter incremented \<open>k\<close>
  times (with wrap-around).
\<close>

theorem loop_iter_changes:
  "changes body k s s1 \<Longrightarrow> body s1 = Some (Inr (False, s')) \<Longrightarrow>
   loop_iter body ctr s = Some (Inr (0 <s (ctr + word_of_nat k), s'))"
  by (rule loop_iter_changes_run)

text \<open>C7: an abort of the body after \<open>k\<close> changing iterations aborts the loop.\<close>

theorem loop_iter_error:
  "changes body k s s1 \<Longrightarrow> body s1 = Some (Inl e) \<Longrightarrow> loop_iter body ctr s = Some (Inl e)"
proof (induction arbitrary: ctr rule: changes.induct)
  case (changes_0 s)
  then show ?case by (subst loop_iter_unfold) simp
next
  case (changes_Suc s s1 k s2)
  have "loop_iter body ctr s = loop_iter body (ctr + 1) s1"
    by (subst loop_iter_unfold) (simp add: changes_Suc.hyps(1))
  with changes_Suc.IH changes_Suc.prems show ?case by simp
qed

lemma loop_sem_loop_iter: "loop_sem body ctr s r \<Longrightarrow> loop_iter body ctr s = Some r"
proof (induction rule: loop_sem.induct)
  case (loop_stop s s' ctr)
  then show ?case by (subst loop_iter_unfold) simp
next
  case (loop_abort s e ctr)
  then show ?case by (subst loop_iter_unfold) simp
next
  case (loop_again s s' ctr r)
  then show ?case by (subst loop_iter_unfold) simp
qed

lemma loop_iter_loop_sem:
  assumes "loop_iter body ctr s = Some r"
  shows "loop_sem body ctr s r"
proof -
  have "b = body \<longrightarrow> loop_sem body ctr s r" if "loop_iter b ctr s = Some r" for b ctr s r
  proof (rule loop_iter.raw_induct [where P = "\<lambda>b ctr s r. b = body \<longrightarrow> loop_sem body ctr s r", OF _ that])
    fix f b ctr s y
    assume IH: "\<And>b ctr s y. f b ctr s = Some y \<Longrightarrow> b = body \<longrightarrow> loop_sem body ctr s y"
      and eq: "(case b s of None \<Rightarrow> None | Some (Inl e) \<Rightarrow> Some (Inl e)
        | Some (Inr (c, s')) \<Rightarrow> if c then f b (ctr + 1) s' else Some (Inr (0 <s ctr, s'))) = Some y"
    show "b = body \<longrightarrow> loop_sem body ctr s y"
    proof
      assume b: "b = body"
      show "loop_sem body ctr s y"
      proof (cases "b s" rule: outcome_cases)
        case (Returns c s')
        show ?thesis
        proof (cases c)
          case True
          with Returns eq have "f b (ctr + 1) s' = Some y" by simp
          with IH b have "loop_sem body (ctr + 1) s' y" by blast
          with Returns True b show ?thesis by (auto intro: loop_again)
        qed (use Returns eq b in \<open>auto intro: loop_stop\<close>)
      qed (use eq b in \<open>auto intro: loop_abort\<close>)
    qed
  qed
  with assms show ?thesis by blast
qed

text \<open>
  The loop returns exactly the results its big-step semantics gives: the partial
  function and the relation agree on every run that ends, and a run the relation has no
  result for does not return.
\<close>

theorem loop_iter_eq_loop_sem: "loop_iter body ctr s = Some r \<longleftrightarrow> loop_sem body ctr s r"
  using loop_iter_loop_sem [of body ctr s r] loop_sem_loop_iter [of body ctr s r] by blast

lemma loop_sem_invariant:
  assumes "loop_sem body ctr s r" and "P s"
    and "\<And>t c t'. P t \<Longrightarrow> body t = Some (Inr (c, t')) \<Longrightarrow> P t'"
  shows "\<forall>c s'. r = Inr (c, s') \<longrightarrow> P s'"
  using assms by (induction rule: loop_sem.induct) blast+

lemma loop_iter_invariant:
  "loop_iter body ctr s = Some (Inr (c, s')) \<Longrightarrow> P s \<Longrightarrow>
   (\<And>t c t'. P t \<Longrightarrow> body t = Some (Inr (c, t')) \<Longrightarrow> P t') \<Longrightarrow> P s'"
  using loop_sem_invariant [of body ctr s "Inr (c, s')" P] by (blast dest: loop_iter_loop_sem)

lemma loop_transform_changes_run:
  "changes (own_apply ap b) k s s1 \<Longrightarrow> own_apply ap b s1 = Some (Inr (False, s')) \<Longrightarrow>
   loop_transform ap b s = Some (Inr ((0::int32) <s word_of_nat k, s'))"
  using loop_iter_changes_run [of "own_apply ap b" k s s1 s' 0] by (simp add: loop_transform_def)

text \<open>
  C3: the flag against the spec's unbounded count. If the body reports a change \<open>k\<close>
  times and then no change, with \<open>k < 2 ^ 31\<close>, \<open>transform\<close> returns \<open>k > 0\<close>, that is,
  whether the first call reported a change, and the state of the last call.
\<close>

theorem loop_transform_reports:
  assumes "changes (own_apply ap b) k s s1"
    and "own_apply ap b s1 = Some (Inr (False, s'))"
    and "k < 2 ^ 31"
  shows "loop_transform ap b s = Some (Inr (0 < k, s'))"
proof -
  have "loop_transform ap b s = Some (Inr ((0::int32) <s word_of_nat k, s'))"
    using assms(1,2) by (rule loop_transform_changes_run)
  moreover have "((0::int32) <s word_of_nat k) = (0 < k)"
    using assms(3) by (intro sless_zero_word_of_nat) simp
  ultimately show ?thesis by simp
qed

text \<open>
  C16: the exact bound. For any number \<open>k\<close> of changing iterations, the loop reports a
  change exactly when \<open>k mod 2 ^ 32\<close> lies in \<open>[1, 2 ^ 31)\<close>: the 32-bit \<open>int ctr\<close>
  agrees with the spec's \<open>ctr > 0\<close> below \<open>2 ^ 31\<close> iterations only, and the answer
  then alternates with period \<open>2 ^ 32\<close>. Beyond \<open>2 ^ 31\<close> this is the
  two's-complement resolution of a signed overflow, which C++ leaves undefined.
\<close>

theorem loop_transform_wraps:
  assumes "changes (own_apply ap b) k s s1"
    and "own_apply ap b s1 = Some (Inr (False, s'))"
  shows "loop_transform ap b s = Some (Inr (0 < k mod 2 ^ 32 \<and> k mod 2 ^ 32 < 2 ^ 31, s'))"
  using loop_transform_changes_run [OF assms] by (simp only: int32_sless_zero_iff)

lemma loop_sem_returns_shape:
  "loop_sem body ctr s r \<Longrightarrow> r = Inr (c, s') \<Longrightarrow>
   \<exists>k t. changes body k s t \<and> body t = Some (Inr (False, s')) \<and> c = (0 <s (ctr + word_of_nat k))"
proof (induction rule: loop_sem.induct)
  case (loop_stop s s1 ctr)
  then show ?case by (intro exI [of _ 0] exI [of _ s]) (simp add: changes_0)
next
  case (loop_again s s1 ctr r)
  then obtain k t where "changes body k s1 t" "body t = Some (Inr (False, s'))"
    and "c = (0 <s (ctr + 1 + word_of_nat k))" by blast
  with loop_again.hyps(1) have "changes body (Suc k) s t \<and> body t = Some (Inr (False, s')) \<and>
    c = (0 <s (ctr + word_of_nat (Suc k)))"
    by (simp add: changes_Suc add.assoc)
  then show ?case by blast
qed simp

text \<open>
  C18: nothing but counted iterations. Every run of the loop that returns a result is
  \<open>k\<close> iterations whose body call reports a change, followed by one call that reports
  no change and whose state is returned; the flag is \<open>ctr > 0\<close> for the counter
  incremented exactly \<open>k\<close> times. With C2 this characterises the returning runs.
\<close>

theorem loop_iter_returns:
  "loop_iter body ctr s = Some (Inr (c, s')) \<Longrightarrow>
   \<exists>k t. changes body k s t \<and> body t = Some (Inr (False, s')) \<and> c = (0 <s (ctr + word_of_nat k))"
  by (rule loop_sem_returns_shape [OF loop_iter_loop_sem refl])

text \<open>
  C8: there is no iteration cap. A body that, from every state of a set \<open>S\<close>, reports a
  change and stays in \<open>S\<close> makes the loop run forever from any state of \<open>S\<close>.
\<close>

theorem loop_iter_diverges:
  assumes inf: "\<And>t. t \<in> S \<Longrightarrow> \<exists>t'. t' \<in> S \<and> body t = Some (Inr (True, t'))"
    and s: "s \<in> S"
  shows "loop_iter body ctr s = None"
proof (rule ccontr)
  assume "loop_iter body ctr s \<noteq> None"
  then obtain r where "loop_sem body ctr s r"
    by (blast intro: loop_iter_loop_sem)
  then have "s \<in> S \<longrightarrow> False"
    by (induction rule: loop_sem.induct) (use inf in fastforce)+
  with s show False by blast
qed

text \<open>
  C9: termination is the body's obligation. If the body returns on every state of an
  invariant \<open>P\<close>, and each call that reports a change keeps \<open>P\<close> and decreases a
  measure \<open>m\<close>, the loop returns.
\<close>

theorem loop_iter_terminates:
  fixes m :: "'s \<Rightarrow> nat"
  assumes ret: "\<And>t. P t \<Longrightarrow> \<exists>r. body t = Some r"
    and dec: "\<And>t t'. P t \<Longrightarrow> body t = Some (Inr (True, t')) \<Longrightarrow> P t' \<and> m t' < m t"
    and "P s"
  shows "\<exists>r. loop_iter body ctr s = Some r"
  using \<open>P s\<close>
proof (induction "m s" arbitrary: s ctr rule: less_induct)
  case less
  from ret [OF less.prems] obtain r where r: "body s = Some r" by blast
  show ?case
  proof (cases "\<exists>s'. r = Inr (True, s')")
    case True
    then obtain s' where s': "r = Inr (True, s')" by blast
    with r dec less.prems have "P s'" and "m s' < m s" by blast+
    with less.hyps obtain r' where "loop_iter body (ctr + 1) s' = Some r'" by blast
    with r s' show ?thesis by (subst loop_iter_unfold) simp
  next
    case False
    then have "\<exists>r'. outcome_bind (Some r) (\<lambda>c s'. if c then loop_iter body (ctr + 1) s'
                 else Some (Inr (0 <s ctr, s'))) = Some r'"
      by (cases r) auto
    with r show ?thesis by (subst loop_iter_unfold) simp
  qed
qed

lemma loop_transform_invariant:
  "loop_transform ap b s = Some (Inr (c, s')) \<Longrightarrow> P s \<Longrightarrow>
   (\<And>x t t' d. b = Some x \<Longrightarrow> P t \<Longrightarrow> ap x t = Some (Inr (d, t')) \<Longrightarrow> P t') \<Longrightarrow> P s'"
  unfolding loop_transform_def by (erule loop_iter_invariant) (auto simp: own_apply_def split: option.splits)

lemma loop_sem_error_source:
  "loop_sem body ctr s r \<Longrightarrow> r = Inl e \<Longrightarrow> \<exists>t. body t = Some (Inl e)"
  by (induction rule: loop_sem.induct) auto

text \<open>An abort of a loop is a null body or an abort of the body.\<close>

lemma loop_transform_error_source:
  "loop_transform ap b s = Some (Inl e) \<Longrightarrow>
   (b = None \<and> e = Null_dereference) \<or> (\<exists>x t. b = Some x \<and> ap x t = Some (Inl e))"
  unfolding loop_transform_def
  by (drule loop_iter_loop_sem, drule loop_sem_error_source) (auto simp: own_apply_def split: option.splits)

text \<open>
  A returning loop ends in a state on which the body's last call reported no change, or
  in the body's error.
\<close>

lemma loop_iter_final:
  assumes "loop_iter body ctr s = Some (Inr (c, s'))"
  shows "\<exists>t. body t = Some (Inr (False, s'))"
proof -
  have "loop_sem body ctr s r \<Longrightarrow> r = Inr (c, s') \<Longrightarrow> \<exists>t. body t = Some (Inr (False, s'))" for r
    by (induction rule: loop_sem.induct) auto
  with loop_iter_loop_sem [OF assms] show ?thesis by blast
qed

text \<open>
  Simulation: a body that commutes with an abstraction \<open>f\<close> of the state gives a loop
  that commutes with it, divergence included. The backward half reflects a returning
  abstract run to a returning concrete one.
\<close>

lemma loop_sem_map_back:
  assumes body: "\<And>t. outcome_map f (body t) = body' (f t)"
  shows "loop_sem body' ctr t r' \<Longrightarrow> t = f u \<Longrightarrow> \<exists>r. loop_iter body ctr u = Some r"
proof (induction arbitrary: u rule: loop_sem.induct)
  case (loop_stop t t' ctr)
  then have "outcome_map f (body u) = Some (Inr (False, t'))" using body [of u] by simp
  then obtain x where "body u = Some (Inr (False, x))" by (auto simp: outcome_map_eq_iff)
  then show ?case by (subst loop_iter_unfold) simp
next
  case (loop_abort t e ctr)
  then have "outcome_map f (body u) = Some (Inl e)" using body [of u] by simp
  then have "body u = Some (Inl e)" by (simp add: outcome_map_eq_iff)
  then show ?case by (subst loop_iter_unfold) simp
next
  case (loop_again t t' ctr r)
  then have "outcome_map f (body u) = Some (Inr (True, t'))" using body [of u] by simp
  then obtain x where x: "body u = Some (Inr (True, x))" "t' = f x" by (auto simp: outcome_map_eq_iff)
  with loop_again.IH obtain r where "loop_iter body (ctr + 1) x = Some r" by blast
  with x show ?case by (subst loop_iter_unfold) simp
qed

lemma loop_iter_map:
  assumes body: "\<And>t. outcome_map f (body t) = body' (f t)"
  shows "outcome_map f (loop_iter body ctr s) = loop_iter body' ctr (f s)"
proof (cases "loop_iter body ctr s")
  case (Some r)
  then have "loop_sem body ctr s r" by (rule loop_iter_loop_sem)
  then have "loop_iter body' ctr (f s) = outcome_map f (Some r)"
  proof (induction rule: loop_sem.induct)
    case (loop_stop s s' ctr)
    then have "body' (f s) = Some (Inr (False, f s'))" using body [of s] by simp
    then show ?case by (subst loop_iter_unfold) simp
  next
    case (loop_abort s e ctr)
    then have "body' (f s) = Some (Inl e)" using body [of s] by simp
    then show ?case by (subst loop_iter_unfold) simp
  next
    case (loop_again s s' ctr r)
    then have "body' (f s) = Some (Inr (True, f s'))" using body [of s] by simp
    with loop_again.IH show ?case by (subst loop_iter_unfold) simp
  qed
  with Some show ?thesis by simp
next
  case None
  have "loop_iter body' ctr (f s) = None"
  proof (rule ccontr)
    assume "loop_iter body' ctr (f s) \<noteq> None"
    then obtain r' where "loop_iter body' ctr (f s) = Some r'" by blast
    then have "loop_sem body' ctr (f s) r'" by (rule loop_iter_loop_sem)
    from loop_sem_map_back [OF body this refl] None show False by simp
  qed
  with None show ?thesis by simp
qed

lemma loop_transform_map:
  "(\<And>x t. b = Some x \<Longrightarrow> outcome_map f (ap x t) = ap' x (f t)) \<Longrightarrow>
   outcome_map f (loop_transform ap b s) = loop_transform ap' b (f s)"
  unfolding loop_transform_def by (rule loop_iter_map) (cases b; simp)


theorem loop_iter_changes_witness:
  "changes (\<lambda>n::nat. if n < 2 then Some (Inr (True, Suc n)) else Some (Inr (False, n))) (Suc (Suc 0)) 0 2 \<and>
   (\<lambda>n::nat. if n < 2 then Some (Inr (True, Suc n)) else Some (Inr (False, n))) 2 = Some (Inr (False, 2)) \<and>
   loop_iter (\<lambda>n::nat. if n < 2 then Some (Inr (True, Suc n)) else Some (Inr (False, n))) 0 0 =
     Some (Inr ((0::int32) <s 0 + word_of_nat (Suc (Suc 0)), 2))"
proof -
  let ?b = "\<lambda>n::nat. if n < 2 then Some (Inr (True, Suc n)) else Some (Inr (False, n))"
  have h1: "changes ?b (Suc (Suc 0)) 0 2"
    by (rule changes_Suc, simp, rule changes_Suc, simp, simp add: changes_0 numeral_2_eq_2)
  have h2: "?b 2 = Some (Inr (False, 2))" by simp
  show ?thesis using h1 h2 loop_iter_changes [OF h1 h2, of 0] by simp
qed

theorem loop_iter_error_witness:
  "changes (\<lambda>n::nat. if n < 1 then Some (Inr (True, Suc n)) else Some (Inl (Pass_failure ''x''))) (Suc 0) 0 1 \<and>
   (\<lambda>n::nat. if n < 1 then Some (Inr (True, Suc n)) else Some (Inl (Pass_failure ''x''))) 1 =
     Some (Inl (Pass_failure ''x'')) \<and>
   loop_iter (\<lambda>n::nat. if n < 1 then Some (Inr (True, Suc n)) else Some (Inl (Pass_failure ''x''))) 0 0 =
     Some (Inl (Pass_failure ''x''))"
proof -
  let ?b = "\<lambda>n::nat. if n < 1 then Some (Inr (True, Suc n)) else Some (Inl (Pass_failure ''x''))"
  have h1: "changes ?b (Suc 0) 0 1"
    by (rule changes_Suc, simp, simp add: changes_0)
  have h2: "?b 1 = Some (Inl (Pass_failure ''x''))" by simp
  show ?thesis using h1 h2 loop_iter_error [OF h1 h2, of 0] by simp
qed

theorem loop_transform_reports_witness:
  "changes (own_apply (\<lambda>(_::unit) n::nat. if n < 2 then Some (Inr (True, Suc n)) else Some (Inr (False, n))) (Some ()))
     (Suc (Suc 0)) 0 2 \<and>
   own_apply (\<lambda>(_::unit) n::nat. if n < 2 then Some (Inr (True, Suc n)) else Some (Inr (False, n))) (Some ()) 2 =
     Some (Inr (False, 2)) \<and>
   Suc (Suc 0) < 2 ^ 31 \<and>
   loop_transform (\<lambda>(_::unit) n::nat. if n < 2 then Some (Inr (True, Suc n)) else Some (Inr (False, n))) (Some ()) 0 =
     Some (Inr (True, 2))"
proof -
  let ?ap = "\<lambda>(_::unit) n::nat. if n < 2 then Some (Inr (True, Suc n)) else Some (Inr (False, n))"
  have h1: "changes (own_apply ?ap (Some ())) (Suc (Suc 0)) 0 2"
    by (simp, rule changes_Suc, simp, rule changes_Suc, simp, simp add: changes_0 numeral_2_eq_2)
  have h2: "own_apply ?ap (Some ()) 2 = Some (Inr (False, 2))" by simp
  have h3: "Suc (Suc 0) < (2::nat) ^ 31" by simp
  show ?thesis using h1 h2 h3 loop_transform_reports [OF h1 h2 h3] by simp
qed

theorem loop_iter_diverges_witness:
  "(\<forall>t::nat. \<exists>t'. Some (Inr (True, Suc t)) = Some (Inr (True, t'))) \<and>
   loop_iter (\<lambda>n::nat. Some (Inr (True, Suc n))) 0 0 = None"
  using loop_iter_diverges [of UNIV "\<lambda>n::nat. Some (Inr (True, Suc n))" 0 0] by simp

theorem loop_iter_terminates_witness:
  "(\<forall>t::nat. (if 0 < t then Some (Inr (True, t - 1)) else Some (Inr (False, t))) =
      Some (Inr (False, t)) \<or> 0 < t) \<and>
   (\<exists>r. loop_iter (\<lambda>t::nat. if 0 < t then Some (Inr (True, t - 1)) else Some (Inr (False, t))) 0 5 = Some r)"
proof -
  let ?b = "\<lambda>t::nat. if 0 < t then Some (Inr (True, t - 1)) else Some (Inr (False, t))"
  have h1: "\<And>t. True \<Longrightarrow> \<exists>r. ?b t = Some r" by simp
  have h2: "\<And>t t'. True \<Longrightarrow> ?b t = Some (Inr (True, t')) \<Longrightarrow> True \<and> id t' < id t"
    by (simp split: if_splits)
  show ?thesis using loop_iter_terminates [of "\<lambda>_. True" ?b id 5 0, OF h1 h2] by simp
qed

theorem loop_iter_returns_witness:
  "loop_iter (\<lambda>n::nat. if n < 2 then Some (Inr (True, Suc n)) else Some (Inr (False, n))) 0 0 =
     Some (Inr (True, 2)) \<and>
   (\<exists>k t. changes (\<lambda>n::nat. if n < 2 then Some (Inr (True, Suc n)) else Some (Inr (False, n))) k 0 t \<and>
      (\<lambda>n::nat. if n < 2 then Some (Inr (True, Suc n)) else Some (Inr (False, n)) :: nat outcome) t =
        Some (Inr (False, 2)) \<and>
      True = ((0::int32) <s (0 + word_of_nat k)))"
proof -
  let ?b = "\<lambda>n::nat. if n < 2 then Some (Inr (True, Suc n)) else Some (Inr (False, n)) :: nat outcome"
  have ch: "changes ?b (Suc (Suc 0)) 0 2"
    by (rule changes_Suc, simp, rule changes_Suc, simp, simp add: changes_0 numeral_2_eq_2)
  have h: "loop_iter ?b 0 0 = Some (Inr (True, 2))"
    using loop_iter_changes_run [OF ch, of 2 0] by (simp add: word_sless_alt)
  show ?thesis by (rule conjI [OF h loop_iter_returns [OF h]])
qed

end
