(* ===== verification/Transformer.thy ===== *)
theory Transformer
  imports Translation_Unit Transformer_Sequence Loop_Transformer
begin

text \<open>
  The pass tree and the base contract \<open>RamTransformer\<close> (its header, with
  \<open>RamTransformer::apply\<close>, is not under \<open>src/\<close>; it is modelled from spec 4.1).
  \<^item> \<open>pass_state\<close>: what a run threads through the passes: the translation unit and the
    trace the shared layer writes, one \<open>(name, changed)\<close> event per \<open>apply\<close>.
  \<^item> \<open>transformer\<close>: a leaf (an external rewrite pass: a name and a function on the unit
    that reports a change or fails with a message), a \<open>Sequence\<close> of owned children, or
    a \<open>Loop\<close> with one owned body. Children are \<open>own\<close> pointers and may be null.
  \<^item> \<open>apply_tr\<close>/\<open>transform_tr\<close>: the template method. \<open>apply\<close> is the shared,
    non-overridable layer (\<open>apply_pass\<close>): it runs the pass's \<open>transform\<close>, invalidates
    the analyses when the pass reports a change, and records the event. \<open>transform\<close>
    dispatches on the class: the leaf's function, \<open>seq_transform\<close> or
    \<open>loop_transform\<close> with \<open>apply_tr\<close> itself as the children's \<open>apply\<close>.
  \<^item> \<open>mk_sequence\<close>, \<open>empty_sequence\<close>, \<open>mk_loop\<close>: the constructors; the
    sequence's one checks its elements with \<open>assert\<close>, which is compiled out under
    \<open>NDEBUG\<close> (\<open>assertions = False\<close>).
  \<^item> \<open>run_unit\<close>/\<open>transform_unit\<close>: the unit-level semantics, the same recursion on the
    translation unit alone, with the trace dropped.
  \<^item> \<open>wf_transformer\<close>, \<open>leaves_satisfy\<close>, \<open>loop_free\<close>, \<open>leaves\<close>: predicates and
    observers of a tree.
  Lemmas: a state invariant kept by the wrapped leaves and by the shared layer is kept by
  every pipeline (\<open>apply_tr_invariant\<close>); the analysis cache stays valid for leaves
  that keep their contract (\<open>apply_tr_analyses_valid\<close>); the checked constructor
  rejects exactly the lists with a null (\<open>mk_sequence_checked\<close>), while under
  \<open>NDEBUG\<close> and for the loop's constructor a null is accepted and dereferenced on the
  first \<open>apply\<close> (\<open>mk_sequence_ndebug_null\<close>, \<open>mk_loop_null\<close>); only loops can run
  forever (\<open>loop_free_returns\<close>); an abort is a null dereference or a leaf's own
  failure (\<open>apply_tr_error_source\<close>); projected to the unit, the traced run is the
  unit-level one (\<open>apply_tr_refines\<close>), the bridge that C12 in the root theory uses.
\<close>

record ('p, 'a) pass_state =
  tunit :: "('p, 'a) translation_unit"
  trace :: "event list"

datatype ('p, 'a) transformer =
    Leaf string "('p, 'a) translation_unit \<Rightarrow> string + bool \<times> ('p, 'a) translation_unit"
  | Sequence "('p, 'a) transformer own list"
  | Loop "('p, 'a) transformer own"

type_synonym ('p, 'a) leaf_fn = "('p, 'a) translation_unit \<Rightarrow> string + bool \<times> ('p, 'a) translation_unit"

fun get_name :: "('p, 'a) transformer \<Rightarrow> string" where
  "get_name (Leaf n f) = n"
| "get_name (Sequence ts) = sequence_name"
| "get_name (Loop b) = loop_name"

definition after_transform :: "string \<Rightarrow> bool \<Rightarrow> ('p, 'a) pass_state \<Rightarrow> ('p, 'a) pass_state" where
  "after_transform name changed s =
     (let s1 = (if changed then s\<lparr>tunit := invalidate_analyses (tunit s)\<rparr> else s)
      in s1\<lparr>trace := trace s1 @ [(name, changed)]\<rparr>)"

definition apply_pass ::
  "string \<Rightarrow> (('p, 'a) pass_state \<Rightarrow> ('p, 'a) pass_state outcome) \<Rightarrow> ('p, 'a) pass_state \<Rightarrow> ('p, 'a) pass_state outcome" where
  "apply_pass name transform s =
     outcome_bind (transform s) (\<lambda>changed s'. Some (Inr (changed, after_transform name changed s')))"

definition leaf_transform :: "('p, 'a) leaf_fn \<Rightarrow> ('p, 'a) pass_state \<Rightarrow> ('p, 'a) pass_state outcome" where
  "leaf_transform f s =
     (case f (tunit s) of
        Inl msg \<Rightarrow> Some (Inl (Pass_failure msg))
      | Inr (changed, u) \<Rightarrow> Some (Inr (changed, s\<lparr>tunit := u\<rparr>)))"

fun apply_tr :: "('p, 'a) transformer \<Rightarrow> ('p, 'a) pass_state \<Rightarrow> ('p, 'a) pass_state outcome"
and transform_tr :: "('p, 'a) transformer \<Rightarrow> ('p, 'a) pass_state \<Rightarrow> ('p, 'a) pass_state outcome" where
  "apply_tr t s = apply_pass (get_name t) (transform_tr t) s"
| "transform_tr (Leaf n f) s = leaf_transform f s"
| "transform_tr (Sequence ts) s = seq_transform apply_tr ts s"
| "transform_tr (Loop b) s = loop_transform apply_tr b s"

text \<open>
  The unit-level semantics of a pipeline: what \<open>apply\<close> does to the translation unit
  alone, with the trace dropped. It is the specification the traced run is proved to
  refine (\<open>apply_tr_refines\<close>): the trace is observation only.
\<close>

fun run_unit :: "('p, 'a) transformer \<Rightarrow> ('p, 'a) translation_unit \<Rightarrow> ('p, 'a) translation_unit outcome"
and transform_unit :: "('p, 'a) transformer \<Rightarrow> ('p, 'a) translation_unit \<Rightarrow> ('p, 'a) translation_unit outcome" where
  "run_unit t u =
     outcome_bind (transform_unit t u) (\<lambda>c u'. Some (Inr (c, if c then invalidate_analyses u' else u')))"
| "transform_unit (Leaf n f) u = (case f u of Inl msg \<Rightarrow> Some (Inl (Pass_failure msg)) | Inr r \<Rightarrow> Some (Inr r))"
| "transform_unit (Sequence ts) u = seq_transform run_unit ts u"
| "transform_unit (Loop b) u = loop_transform run_unit b u"

definition mk_sequence :: "bool \<Rightarrow> ('p, 'a) transformer own list \<Rightarrow> error + ('p, 'a) transformer" where
  "mk_sequence assertions transformers =
     (if assertions \<and> \<not> list_all (\<lambda>cur. cur \<noteq> None) transformers then Inl Assertion_failure
      else Inr (Sequence transformers))"

definition empty_sequence :: "('p, 'a) transformer" where
  "empty_sequence = Sequence []"

definition mk_loop :: "('p, 'a) transformer own \<Rightarrow> ('p, 'a) transformer" where
  "mk_loop tLoop = Loop tLoop"

fun wf_transformer :: "('p, 'a) transformer \<Rightarrow> bool" where
  "wf_transformer (Leaf n f) = True"
| "wf_transformer (Sequence ts) = list_all (\<lambda>cur. case cur of None \<Rightarrow> False | Some c \<Rightarrow> wf_transformer c) ts"
| "wf_transformer (Loop b) = (case b of None \<Rightarrow> False | Some c \<Rightarrow> wf_transformer c)"

fun leaves_satisfy :: "(string \<Rightarrow> ('p, 'a) leaf_fn \<Rightarrow> bool) \<Rightarrow> ('p, 'a) transformer \<Rightarrow> bool" where
  "leaves_satisfy Q (Leaf n f) = Q n f"
| "leaves_satisfy Q (Sequence ts) = list_all (\<lambda>cur. case cur of None \<Rightarrow> True | Some c \<Rightarrow> leaves_satisfy Q c) ts"
| "leaves_satisfy Q (Loop b) = (case b of None \<Rightarrow> True | Some c \<Rightarrow> leaves_satisfy Q c)"

definition leaf_contract :: "(string \<Rightarrow> 'p \<Rightarrow> 'a) \<Rightarrow> ('p, 'a) leaf_fn \<Rightarrow> bool" where
  "leaf_contract ana f \<longleftrightarrow>
     (\<forall>u changed u'. analyses_valid ana u \<longrightarrow> f u = Inr (changed, u') \<longrightarrow> \<not> changed \<longrightarrow>
        program u' = program u \<and> analyses_valid ana u')"

text \<open>
  Observers of a pipeline tree: whether it contains a loop node, and its leaves (name and
  function) in order.
\<close>

fun loop_free :: "('p, 'a) transformer \<Rightarrow> bool" where
  "loop_free (Leaf n f) = True"
| "loop_free (Sequence ts) = list_all (\<lambda>cur. case cur of None \<Rightarrow> True | Some c \<Rightarrow> loop_free c) ts"
| "loop_free (Loop b) = False"

fun leaves :: "('p, 'a) transformer \<Rightarrow> (string \<times> ('p, 'a) leaf_fn) list" where
  "leaves (Leaf n f) = [(n, f)]"
| "leaves (Sequence ts) = concat (map (\<lambda>cur. case cur of None \<Rightarrow> [] | Some c \<Rightarrow> leaves c) ts)"
| "leaves (Loop b) = (case b of None \<Rightarrow> [] | Some c \<Rightarrow> leaves c)"

declare apply_pass_def [pass_eval] after_transform_def [pass_eval] leaf_transform_def [pass_eval]
  mk_sequence_def [pass_eval] empty_sequence_def [pass_eval] mk_loop_def [pass_eval]

lemma transform_tr_fun:
  "transform_tr (Leaf n f) = leaf_transform f"
  "transform_tr (Sequence ts) = seq_transform apply_tr ts"
  "transform_tr (Loop b) = loop_transform apply_tr b"
  by (simp_all add: fun_eq_iff)

declare apply_tr.simps [simp del]

lemma apply_tr_Leaf [simp]: "apply_tr (Leaf n f) s = apply_pass n (leaf_transform f) s"
  by (simp add: apply_tr.simps transform_tr_fun)

lemma apply_tr_Sequence [simp]:
  "apply_tr (Sequence ts) s = apply_pass sequence_name (seq_transform apply_tr ts) s"
  by (simp add: apply_tr.simps transform_tr_fun)

lemma apply_tr_Loop [simp]: "apply_tr (Loop b) s = apply_pass loop_name (loop_transform apply_tr b) s"
  by (simp add: apply_tr.simps transform_tr_fun)

declare run_unit.simps(1) [simp del]

lemma run_unit_simps [simp]:
  "run_unit (Leaf n f) u =
     outcome_bind (transform_unit (Leaf n f) u) (\<lambda>c u'. Some (Inr (c, if c then invalidate_analyses u' else u')))"
  "run_unit (Sequence ts) u =
     outcome_bind (seq_transform run_unit ts u) (\<lambda>c u'. Some (Inr (c, if c then invalidate_analyses u' else u')))"
  "run_unit (Loop b) u =
     outcome_bind (loop_transform run_unit b u) (\<lambda>c u'. Some (Inr (c, if c then invalidate_analyses u' else u')))"
  by (simp_all add: run_unit.simps(1))

lemma run_unit_Loop_False:
  "run_unit (Loop (Some b)) u = Some (Inr (False, u')) \<longleftrightarrow> loop_iter (run_unit b) 0 u = Some (Inr (False, u'))"
  by (cases "loop_iter (run_unit b) 0 u" rule: outcome_cases) (simp_all add: loop_transform_def)

lemma apply_pass_Inr:
  "apply_pass n tr s = Some (Inr (c, s')) \<longleftrightarrow>
   (\<exists>s1. tr s = Some (Inr (c, s1)) \<and> s' = after_transform n c s1)"
  by (auto simp: apply_pass_def outcome_bind_eq_Inr)

lemma apply_pass_Inl: "apply_pass n tr s = Some (Inl e) \<longleftrightarrow> tr s = Some (Inl e)"
  by (simp add: apply_pass_def outcome_bind_def split: outcome_splits)

lemma after_transform_trace [simp]: "trace (after_transform n c s) = trace s @ [(n, c)]"
  by (simp add: after_transform_def Let_def)

lemma after_transform_tunit [simp]:
  "tunit (after_transform n c s) = (if c then invalidate_analyses (tunit s) else tunit s)"
  by (simp add: after_transform_def Let_def)

lemma leaves_satisfy_child:
  "leaves_satisfy Q (Sequence ts) \<Longrightarrow> Some x \<in> set ts \<Longrightarrow> leaves_satisfy Q x"
  "leaves_satisfy Q (Loop b) \<Longrightarrow> b = Some x \<Longrightarrow> leaves_satisfy Q x"
  by (fastforce simp: list_all_iff)+

lemma leaves_satisfy_True [simp]: "leaves_satisfy (\<lambda>_ _. True) t"
  by (induction t) (auto simp: list_all_iff split: option.splits)

text \<open>
  The shared layer is the only code that runs between a composite and its children, so
  a property of the state that every wrapped leaf keeps and that the shared layer keeps
  is kept by every pipeline whose leaves satisfy \<open>Q\<close>: the proof obligation a new
  cross-cutting behaviour has to meet.
\<close>

lemma apply_tr_invariant:
  assumes leaf: "\<And>n f s c s'. Q n f \<Longrightarrow> I s \<Longrightarrow> apply_pass n (leaf_transform f) s = Some (Inr (c, s')) \<Longrightarrow> I s'"
    and after: "\<And>n c s. I s \<Longrightarrow> I (after_transform n c s)"
  shows "leaves_satisfy Q t \<Longrightarrow> I s \<Longrightarrow> apply_tr t s = Some (Inr (c, s')) \<Longrightarrow> I s'"
proof (induction t arbitrary: s c s')
  case (Leaf n f)
  then show ?case using leaf by simp
next
  case (Sequence ts)
  from Sequence.prems(3) obtain s1 where
    tr: "seq_transform apply_tr ts s = Some (Inr (c, s1))" and s': "s' = after_transform sequence_name c s1"
    by (auto simp: apply_pass_Inr)
  have "I s1"
    using tr Sequence.prems(2)
  proof (rule seq_transform_invariant)
    fix x t t' d
    assume "Some x \<in> set ts" "I t" "apply_tr x t = Some (Inr (d, t'))"
    moreover from Sequence.prems(1) \<open>Some x \<in> set ts\<close> have "leaves_satisfy Q x"
      by (rule leaves_satisfy_child)
    ultimately show "I t'" using Sequence.IH [of "Some x" x] by simp
  qed
  with s' after show ?case by simp
next
  case (Loop b)
  from Loop.prems(3) obtain s1 where
    tr: "loop_transform apply_tr b s = Some (Inr (c, s1))" and s': "s' = after_transform loop_name c s1"
    by (auto simp: apply_pass_Inr)
  have "I s1"
    using tr Loop.prems(2)
  proof (rule loop_transform_invariant)
    fix x t t' d
    assume "b = Some x" "I t" "apply_tr x t = Some (Inr (d, t'))"
    moreover from Loop.prems(1) \<open>b = Some x\<close> have "leaves_satisfy Q x"
      by (rule leaves_satisfy_child)
    ultimately show "I t'" using Loop.IH [of x] by simp
  qed
  with s' after show ?case by simp
qed

lemma apply_tr_abort_cases:
  "apply_tr (Sequence ts) s = Some (Inl e) \<Longrightarrow>
   (None \<in> set ts \<and> e = Null_dereference) \<or> (\<exists>x t. Some x \<in> set ts \<and> apply_tr x t = Some (Inl e))"
  "apply_tr (Loop b) s = Some (Inl e) \<Longrightarrow>
   (b = None \<and> e = Null_dereference) \<or> (\<exists>x t. b = Some x \<and> apply_tr x t = Some (Inl e))"
  by (simp_all add: apply_pass_Inl) (blast dest: seq_transform_error_source loop_transform_error_source)+

lemma leaf_contract_step:
  assumes "leaf_contract ana f" "analyses_valid ana (tunit s)"
    and "apply_pass n (leaf_transform f) s = Some (Inr (c, s'))"
  shows "analyses_valid ana (tunit s')"
proof -
  from assms(3) obtain u where f: "f (tunit s) = Inr (c, u)"
    and s': "s' = after_transform n c (s\<lparr>tunit := u\<rparr>)"
    by (auto simp: apply_pass_Inr leaf_transform_def split: sum.splits prod.splits)
  show ?thesis
  proof (cases c)
    case False
    with assms(1,2) f have "analyses_valid ana u" unfolding leaf_contract_def by blast
    with False s' show ?thesis by simp
  qed (simp add: s')
qed

lemma after_transform_analyses_valid:
  "analyses_valid ana (tunit s) \<Longrightarrow> analyses_valid ana (tunit (after_transform n c s))"
  by simp

text \<open>
  C4: the analysis cache is never stale. If every leaf keeps its contract (when it
  reports no change, the program is unchanged and any analysis it cached was computed
  from it), every pipeline maps a unit with a valid cache to a unit with a valid cache,
  whatever flags its composites report.
\<close>

theorem apply_tr_analyses_valid:
  "leaves_satisfy (\<lambda>n f. leaf_contract ana f) t \<Longrightarrow> analyses_valid ana (tunit s) \<Longrightarrow>
   apply_tr t s = Some (Inr (c, s')) \<Longrightarrow> analyses_valid ana (tunit s')"
  by (rule apply_tr_invariant [where I = "\<lambda>x. analyses_valid ana (tunit x)"])
     (auto intro: leaf_contract_step after_transform_analyses_valid)

text \<open>
  C5: with assertions enabled, the variadic constructor rejects exactly the lists that
  hold a null pointer, with an assertion failure; otherwise it builds a sequence node
  that is well-formed when its children are.
\<close>

theorem mk_sequence_checked:
  assumes "\<forall>x. Some x \<in> set ts \<longrightarrow> wf_transformer x"
  shows "(mk_sequence True ts = Inl Assertion_failure \<longleftrightarrow> None \<in> set ts) \<and>
         ((\<exists>t. mk_sequence True ts = Inr t \<and> wf_transformer t) \<longleftrightarrow> None \<notin> set ts)"
proof -
  have "list_all (\<lambda>cur. cur \<noteq> None) ts \<longleftrightarrow> None \<notin> set ts"
    by (auto simp: list_all_iff) (metis option.exhaust)
  moreover have "None \<notin> set ts \<Longrightarrow> wf_transformer (Sequence ts)"
    using assms by (auto simp: list_all_iff split: option.splits) (metis option.exhaust)
  ultimately show ?thesis by (auto simp: mk_sequence_def)
qed

text \<open>
  Under \<open>NDEBUG\<close> the \<open>assert\<close> is compiled out: a sequence whose first element is
  null is built without complaint, and its first \<open>apply\<close> dereferences the null pointer.
\<close>

lemma mk_sequence_ndebug_null:
  "\<exists>t. mk_sequence False (None # ts) = Inr t \<and> apply_tr t s = Some (Inl Null_dereference)"
  by (simp add: mk_sequence_def apply_pass_Inl seq_transform_def)

text \<open>
  The loop's constructor does not check its body: a loop built from a null pointer
  is accepted, and applying it dereferences the null pointer.
\<close>

lemma mk_loop_null:
  "apply_tr (mk_loop None) s = Some (Inl Null_dereference)"
  by (simp add: mk_loop_def apply_pass_Inl loop_transform_def loop_iter_unfold)


text \<open>
  The shared layer refines its unit-level counterpart: projected to the unit, the
  invalidation and the trace event after \<open>transform\<close> are the invalidation alone.
\<close>

lemma apply_tr_refines_step:
  assumes "\<And>s. outcome_map tunit (transform_tr x s) = transform_unit x (tunit s)"
  shows "outcome_map tunit (apply_tr x t) = run_unit x (tunit t)"
proof -
  have "outcome_map tunit (apply_tr x t) =
    outcome_bind (transform_unit x (tunit t)) (\<lambda>c u'. Some (Inr (c, if c then invalidate_analyses u' else u')))"
    unfolding apply_tr.simps apply_pass_def by (rule outcome_map_bind) (simp_all add: assms)
  then show ?thesis by (simp add: run_unit.simps(1))
qed

lemma transform_tr_refines:
  "outcome_map tunit (transform_tr t s) = transform_unit t (tunit s)"
proof (induction t arbitrary: s)
  case (Leaf n f)
  then show ?case by (simp add: leaf_transform_def split: sum.splits prod.splits)
next
  case (Sequence ts)
  have "outcome_map tunit (seq_transform apply_tr ts s) = seq_transform run_unit ts (tunit s)"
  proof (rule seq_transform_map)
    fix x t assume "Some x \<in> set ts"
    then show "outcome_map tunit (apply_tr x t) = run_unit x (tunit t)"
      using Sequence.IH [of "Some x" x] by (intro apply_tr_refines_step) simp
  qed
  then show ?case by simp
next
  case (Loop b)
  have "outcome_map tunit (loop_transform apply_tr b s) = loop_transform run_unit b (tunit s)"
  proof (rule loop_transform_map)
    fix x t assume "b = Some x"
    then show "outcome_map tunit (apply_tr x t) = run_unit x (tunit t)"
      using Loop.IH [of x] by (intro apply_tr_refines_step) simp
  qed
  then show ?case by simp
qed


text \<open>
  The trace is observation only. Projected to the translation unit, a traced run of
  any pipeline is its unit-level run: same divergence, same error, same flag, same unit.
\<close>

lemma apply_tr_refines: "outcome_map tunit (apply_tr t s) = run_unit t (tunit s)"
  by (rule apply_tr_refines_step) (rule transform_tr_refines)

lemma leaves_child:
  "Some x \<in> set ts \<Longrightarrow> set (leaves x) \<subseteq> set (leaves (Sequence ts))"
  "b = Some x \<Longrightarrow> set (leaves x) \<subseteq> set (leaves (Loop b))"
  by force+

lemma leaf_transform_total: "leaf_transform f s \<noteq> None"
  by (simp add: leaf_transform_def split: sum.splits prod.splits)

lemma apply_pass_None: "apply_pass n tr s = None \<longleftrightarrow> tr s = None"
  by (cases "tr s" rule: outcome_cases) (simp_all add: apply_pass_def)

text \<open>
  C13: only loops can run forever. A pipeline without a loop node returns on every
  input (with a result or an abort), whatever its leaves compute and wherever its null
  children are.
\<close>

theorem loop_free_returns: "loop_free t \<Longrightarrow> apply_tr t s \<noteq> None"
proof (induction t arbitrary: s)
  case (Leaf n f)
  then show ?case by (simp add: apply_pass_None leaf_transform_total)
next
  case (Sequence ts)
  have "seq_transform apply_tr ts s \<noteq> None"
  proof (rule seq_transform_total)
    fix x t assume x: "Some x \<in> set ts"
    with Sequence.prems have "loop_free x" by (auto simp: list_all_iff)
    with x show "apply_tr x t \<noteq> None" using Sequence.IH [of "Some x" x] by simp
  qed
  then show ?case by (simp add: apply_pass_None)
qed simp

text \<open>
  C14: the error taxonomy of the core is narrow. A run aborts only by dereferencing a
  null child or with the failure message of one of its own leaves, propagated
  unchanged; it never raises an assertion failure at run time and never invents an
  error.
\<close>

theorem apply_tr_error_source:
  "apply_tr t s = Some (Inl e) \<Longrightarrow>
   e = Null_dereference \<or> (\<exists>n f u msg. (n, f) \<in> set (leaves t) \<and> f u = Inl msg \<and> e = Pass_failure msg)"
proof (induction t arbitrary: s)
  case (Leaf n f)
  then show ?case
    by (auto simp: apply_pass_Inl leaf_transform_def split: sum.splits prod.splits)
next
  case (Sequence ts)
  then consider "e = Null_dereference" | x t where "Some x \<in> set ts" "apply_tr x t = Some (Inl e)"
    by (blast dest: apply_tr_abort_cases(1))
  then show ?case
  proof cases
    case 2
    with Sequence.IH [of "Some x" x t] leaves_child(1) [OF 2(1)] show ?thesis by blast
  qed simp
next
  case (Loop b)
  then consider "e = Null_dereference" | x t where "b = Some x" "apply_tr x t = Some (Inl e)"
    by (blast dest: apply_tr_abort_cases(2))
  then show ?case
  proof cases
    case 2
    with Loop.IH [of x t] leaves_child(2) [OF 2(1)] show ?thesis by blast
  qed simp
qed

end
