(* ===== verification/Spec2Isabelle.thy ===== *)
theory Spec2Isabelle
  imports Transformer
begin

text \<open>
  A verification development of the pass-composition core of the Souffle RAM optimiser:
  the composite passes \<open>RamTransformerSequence\<close> (\<open>src/src/ram/transform/Sequence.h\<close>)
  and \<open>RamLoopTransformer\<close> (\<open>src/src/ram/transform/Loop.h\<close>), the base contract
  \<open>RamTransformer::apply\<close> they are built on, and the translation unit they rewrite.
  A pipeline is a tree of passes. A composite reaches its children only through
  \<open>cur->apply(tU)\<close>, the shared non-overridable layer, which calls the class's own
  \<open>transform\<close>, invalidates the analysis cache when the pass reports a change, and
  records the call. The headers of the base class and of the translation unit are not
  under \<open>src/\<close>; they are modelled from the spec (sections 3, 4.1, 7).

  \<^bold>\<open>Theories.\<close>
  \<^item> \<open>Pass_Prelude\<close>: outcomes of a call (\<open>'s outcome\<close>: \<open>None\<close> for a call that never
    returns, \<open>Inl\<close> for an abort, \<open>Inr (changed, state)\<close> for a return), the
    \<open>error\<close> type (null dereference, failed \<open>assert\<close>, failure inside a leaf),
    nullable owning pointers \<open>'c own\<close> for \<open>Own<T>\<close> and the call through them
    (\<open>own_apply\<close>), sequencing (\<open>outcome_bind\<close>), the state abstraction of an
    outcome (\<open>outcome_map\<close>), and the 32-bit signed counter \<open>int32\<close>.
  \<^item> \<open>Translation_Unit\<close>: \<open>RamTranslationUnit\<close> as a record of an opaque program and
    a name-keyed analysis cache; \<open>get_analysis\<close> (\<open>getAnalysis\<close>),
    \<open>invalidate_analyses\<close> (\<open>invalidateAnalyses\<close>), and the cache-validity
    predicate \<open>analyses_valid\<close>.
  \<^item> \<open>Transformer_Sequence\<close>: \<open>RamTransformerSequence::transform\<close> (lines 54-64) as
    \<open>seq_transform\<close>, whose range-for loop is the structural recursion \<open>seq_loop\<close>
    carrying \<open>changed\<close>; the class is generic in the children's \<open>apply\<close>. Lemmas:
    the last child decides the flag (C1), an abort stops the sequence (C6), every child
    runs once and in order whatever the flags (C15), the loop equals the spec's left
    fold \<open>seq_reference\<close> (C17); invariants, totality and the simulation under a
    state abstraction are helpers.
  \<^item> \<open>Loop_Transformer\<close>: \<open>RamLoopTransformer::transform\<close> (lines 40-46) as
    \<open>loop_transform\<close> over \<open>loop_iter\<close>, a \<open>partial_function (option)\<close> with the
    \<open>int ctr\<close> as an \<open>int32\<close> argument incremented with wrap-around and tested with
    the signed \<open>0 <s ctr\<close>. The inductive \<open>changes\<close> counts consecutive changing
    iterations; the inductive \<open>loop_sem\<close> is the big-step relation used for rule
    induction over returning runs. Lemmas: the result after \<open>k\<close> changes (C2) and its
    converse, every returning run has that shape (C18); the flag below \<open>2 ^ 31\<close>
    iterations (C3) and for every \<open>k\<close> (C16); an abort after \<open>k\<close> changes (C7);
    divergence of an always-changing body (C8); termination under a decreasing measure
    (C9); the exit state and the simulation under a state abstraction as helpers.
  \<^item> \<open>Transformer\<close>: the pass tree (\<open>transformer\<close>: a leaf, a \<open>Sequence\<close> of owned
    children, a \<open>Loop\<close> with an owned body), the state of a run (\<open>pass_state\<close>:
    the unit and the trace), the template method \<open>apply_tr\<close>/\<open>transform_tr\<close>
    (the shared layer \<open>apply_pass\<close>, \<open>after_transform\<close>), the constructors
    \<open>mk_sequence\<close> (lines 39-49, with \<open>assert\<close> switched by \<open>NDEBUG\<close>),
    \<open>empty_sequence\<close>, \<open>mk_loop\<close>, and well-formedness. \<open>run_unit\<close> is the
    unit-level semantics with the trace dropped; the traced run refines it, which is
    the bridge C12 uses. Lemmas: a generic invariant over pipelines, cache validity
    (C4), the checked constructor (C5), termination of loop-free pipelines (C13) and
    the sources of an abort (C14). The constructors' acceptance of null pointers under
    \<open>NDEBUG\<close> and for the loop is recorded as two lemmas behind the findings.
  \<^item> this theory: stub leaves for the tests of spec section 8 and the properties
    that span components: order and invocation count through the shared layer (C10),
    the failure of the spec's idempotent convergence law for sequences (C11), the law
    for loops with stable bodies (C12), and an example of premature convergence.

  \<^bold>\<open>Bounds.\<close> There is no fuel: the loop has no iteration cap in the code, so
  \<open>loop_iter\<close> is a \<open>partial_function\<close> in the option monad and not returning is
  the value \<open>None\<close>. Returning is proved as such (C9: \<open>\<exists>r. \<dots> = Some r\<close>) and
  not returning as such (C8: \<open>= None\<close>). The pass tree is recursed structurally;
  \<open>apply_tr\<close> terminates by the congruence rules of the composites. The counter is
  kept at 32 bits: below \<open>2 ^ 31\<close> changing iterations the flag is \<open>k > 0\<close> (C3),
  exactly as the spec's unbounded count. Beyond that \<open>ctr++\<close> overflows a signed
  \<open>int\<close>, which is undefined behaviour in C++; the model takes the two's-complement
  wrap, under which the flag is true exactly when \<open>k mod 2 ^ 32\<close> lies in
  \<open>[1, 2 ^ 31)\<close> (C16). An optimiser may resolve the undefined behaviour differently
  (for instance folding \<open>ctr > 0\<close> into \<open>ctr != 0\<close>), so C16 beyond \<open>2 ^ 31\<close>
  describes the wrapping build only.

  \<^bold>\<open>Not modelled.\<close> \<open>RamMetaTransformer\<close> is a marker base class with no
  behaviour; the leaf rewrite passes are external and are arbitrary functions on the
  unit here; the driver that assembles and runs pipelines is outside the core; timing
  and debug printing in \<open>apply\<close> are diagnostics (a non-goal of the spec), and the
  trace records every call where the real layer logs only under its verbose and
  debug options. Ownership and moves of \<open>Own<T>\<close> are modelled by the tree being a
  value: no pass is shared, as the spec requires. A call through a null \<open>Own\<close> is
  undefined behaviour in C++; the model makes it the abort \<open>Null_dereference\<close>. The
  program inside the unit is opaque. The lines of the two headers that no definition
  translates are the licence, the includes, the class declarations with their
  documentation comments, and the declarations of the member fields; the fields are
  the arguments of the \<open>Sequence\<close> and \<open>Loop\<close> constructors of \<open>transformer\<close>.
\<close>

section \<open>Leaves used by the scenarios of spec section 8\<close>

text \<open>
  The spec's tests drive the composites with stub passes. They are leaves of the model:
  \<open>const_leaf n b\<close> always reports \<open>b\<close> and leaves the unit alone; \<open>countdown_leaf k\<close>
  counts its calls in the program and reports a change on its first \<open>k\<close> calls;
  \<open>bump_leaf\<close> and \<open>sync_leaf\<close> act on a program of two counters.
  \<open>unit_at p tr\<close> is a state with program \<open>p\<close>, an empty analysis cache and trace \<open>tr\<close>.
\<close>

definition unit_at :: "'p \<Rightarrow> event list \<Rightarrow> ('p, 'a) pass_state" where
  "unit_at p tr = \<lparr>tunit = \<lparr>program = p, analyses = []\<rparr>, trace = tr\<rparr>"

definition const_leaf :: "string \<Rightarrow> bool \<Rightarrow> ('p, 'a) transformer" where
  "const_leaf n b = Leaf n (\<lambda>u. Inr (b, u))"

definition countdown_leaf :: "nat \<Rightarrow> (nat, nat) transformer" where
  "countdown_leaf k =
     Leaf ''B'' (\<lambda>u. if program u < k then Inr (True, u\<lparr>program := Suc (program u)\<rparr>) else Inr (False, u))"

definition bump_leaf :: "(nat \<times> nat, nat) transformer" where
  "bump_leaf = Leaf ''A'' (\<lambda>u. Inr (True, u\<lparr>program := (Suc (fst (program u)), snd (program u))\<rparr>))"

definition sync_leaf :: "(nat \<times> nat, nat) transformer" where
  "sync_leaf =
     Leaf ''E'' (\<lambda>u. if even (fst (program u)) \<and> snd (program u) \<noteq> fst (program u)
                    then Inr (True, u\<lparr>program := (fst (program u), fst (program u))\<rparr>) else Inr (False, u))"

definition sync_pipeline :: "(nat \<times> nat, nat) transformer" where
  "sync_pipeline = Loop (Some (Sequence [Some bump_leaf, Some sync_leaf]))"

declare sync_pipeline_def [pass_eval] unit_at_def [pass_eval] const_leaf_def [pass_eval] countdown_leaf_def [pass_eval]
  bump_leaf_def [pass_eval] sync_leaf_def [pass_eval]

lemma after_transform_unit_at [simp]:
  "after_transform n c (unit_at p tr) = unit_at p (tr @ [(n, c)])"
  by (simp add: after_transform_def unit_at_def invalidate_analyses_def)

lemma countdown_step:
  "apply_tr (countdown_leaf k) (unit_at p tr) =
   Some (Inr (p < k, unit_at (if p < k then Suc p else p) (tr @ [(''B'', p < k)])))"
  by (simp add: countdown_leaf_def apply_pass_def leaf_transform_def unit_at_def
      after_transform_def invalidate_analyses_def)

lemma countdown_changes:
  "p + j \<le> k \<Longrightarrow>
   changes (apply_tr (countdown_leaf k)) j (unit_at p tr)
     (unit_at (p + j) (tr @ replicate j (''B'', True)))"
proof (induction j arbitrary: p tr)
  case 0
  then show ?case by (simp add: changes_0)
next
  case (Suc j)
  have "changes (apply_tr (countdown_leaf k)) j (unit_at (Suc p) (tr @ [(''B'', True)]))
     (unit_at (Suc p + j) ((tr @ [(''B'', True)]) @ replicate j (''B'', True)))"
    using Suc.IH [of "Suc p" "tr @ [(''B'', True)]"] Suc.prems by simp
  moreover have "apply_tr (countdown_leaf k) (unit_at p tr) =
     Some (Inr (True, unit_at (Suc p) (tr @ [(''B'', True)])))"
    using Suc.prems by (simp add: countdown_step)
  ultimately show ?case
    by (simp add: changes_Suc replicate_append_same [symmetric])
qed

lemma invalidate_analyses_idem [simp]:
  "invalidate_analyses (invalidate_analyses u) = invalidate_analyses u"
  by (simp add: invalidate_analyses_def)

lemma seq_loop_const_leaves:
  "seq_loop apply_tr (map (\<lambda>(n, b). Some (const_leaf n b)) ls) c s =
   Some (Inr (last (c # map snd ls),
     s\<lparr>tunit := (if list_ex snd ls then invalidate_analyses (tunit s) else tunit s),
       trace := trace s @ ls\<rparr>))"
proof (induction ls arbitrary: c s)
  case Nil
  then show ?case by simp
next
  case (Cons x ls)
  obtain n b where x: "x = (n, b)" by (cases x)
  have "apply_tr (const_leaf n b) s = Some (Inr (b, after_transform n b s))"
    by (simp add: const_leaf_def apply_pass_def leaf_transform_def)
  with Cons.IH [of b "after_transform n b s"] x show ?case
    by (auto simp: after_transform_def Let_def)
qed

section \<open>The scenarios of spec section 8\<close>

text \<open>
  C10: order and invocation count. A sequence of passes runs each of them exactly once,
  in declaration order, whatever they report; its result is the last pass's flag
  (false for the empty list), and the shared layer invalidates the analyses if any
  pass reported a change.
\<close>

theorem sequence_runs_in_order:
  "apply_tr (Sequence (map (\<lambda>(n, b). Some (const_leaf n b)) ls)) s =
   Some (Inr (last (False # map snd ls),
     s\<lparr>tunit := (if list_ex snd ls then invalidate_analyses (tunit s) else tunit s),
       trace := trace s @ ls @ [(sequence_name, last (False # map snd ls))]\<rparr>))"
proof -
  have "last (False # map snd ls) \<Longrightarrow> list_ex snd ls"
    by (induction ls) (auto split: if_splits)
  then show ?thesis
    by (simp add: seq_transform_def seq_loop_const_leaves apply_pass_def after_transform_def Let_def)
qed

text \<open>
  C11: the spec's idempotent convergence law fails. \<open>sync_pipeline\<close> is a fixed-point
  loop over a sequence of two passes that both keep the pass contract; its first call
  reports no change, and a second call on the unit it returned reports a change: the
  sequence reported only its last pass's flag while its first pass had changed the unit.
\<close>

theorem convergence_not_idempotent:
  "leaves_satisfy (\<lambda>n f. leaf_contract ana f) sync_pipeline \<and>
   (\<exists>s1 s2. apply_tr sync_pipeline (unit_at (0, 0) []) = Some (Inr (False, s1)) \<and>
      apply_tr sync_pipeline s1 = Some (Inr (True, s2)))"
proof
  show "leaves_satisfy (\<lambda>n f. leaf_contract ana f) sync_pipeline"
    by (auto simp: sync_pipeline_def bump_leaf_def sync_leaf_def leaf_contract_def)
  show "\<exists>s1 s2. apply_tr sync_pipeline (unit_at (0, 0) []) = Some (Inr (False, s1)) \<and>
      apply_tr sync_pipeline s1 = Some (Inr (True, s2))"
    by (simp add: pass_eval)
qed

text \<open>
  An example of premature convergence (the spec's open question): a loop over a sequence
  whose last pass reports no change stops after one iteration and reports no change,
  although an earlier pass changed the program in that iteration.
\<close>

lemma loop_converges_prematurely:
  "\<exists>s1. apply_tr (Loop (Some (Sequence [Some bump_leaf, Some (const_leaf ''N'' False)])))
          (unit_at (0, 0) []) = Some (Inr (False, s1)) \<and> program (tunit s1) \<noteq> (0, 0)"
  by (simp add: pass_eval)

text \<open>
  C12: the idempotent convergence law holds for loops whose body is stable (a body that
  reports no change on a unit reports no change again on the unit it returned). If such
  a loop reports no change, a second immediate run reports no change and leaves the
  unit as it was, however many iterations the first run took and whatever its 32-bit
  counter read. C11 shows that the law fails for sequences.
\<close>

theorem loop_idempotent_convergence:
  assumes stable: "\<And>u u'. run_unit b u = Some (Inr (False, u')) \<Longrightarrow> run_unit b u' = Some (Inr (False, u'))"
    and run: "apply_tr (Loop (Some b)) s = Some (Inr (False, s'))"
  shows "\<exists>s''. apply_tr (Loop (Some b)) s' = Some (Inr (False, s'')) \<and> tunit s'' = tunit s'"
proof -
  have refines: "outcome_map tunit (apply_tr (Loop (Some b)) x) = run_unit (Loop (Some b)) (tunit x)" for x
    by (rule apply_tr_refines_step) (rule transform_tr_refines)
  from run have "outcome_map tunit (apply_tr (Loop (Some b)) s) = Some (Inr (False, tunit s'))"
    by (simp only: outcome_map_simps)
  then have "loop_iter (run_unit b) 0 (tunit s) = Some (Inr (False, tunit s'))"
    by (simp only: refines run_unit_Loop_False)
  then have "\<exists>u. run_unit b u = Some (Inr (False, tunit s'))"
    by (rule loop_iter_final)
  then obtain u where "run_unit b u = Some (Inr (False, tunit s'))" ..
  then have "run_unit b (tunit s') = Some (Inr (False, tunit s'))" by (rule stable)
  then have "loop_iter (run_unit b) 0 (tunit s') = Some (Inr (False, tunit s'))"
    by (subst loop_iter_unfold) simp
  then have "outcome_map tunit (apply_tr (Loop (Some b)) s') = Some (Inr (False, tunit s'))"
    by (simp only: refines run_unit_Loop_False)
  then show ?thesis by (simp only: outcome_map_eq_iff)
qed

section \<open>Witnesses\<close>

theorem apply_tr_analyses_valid_witness:
  "leaves_satisfy (\<lambda>n f. leaf_contract (\<lambda>_ p. p) f) (Loop (Some (countdown_leaf 2))) \<and>
   analyses_valid (\<lambda>_ p. p) (tunit (unit_at 0 [] :: (nat, nat) pass_state)) \<and>
   apply_tr (Loop (Some (countdown_leaf 2))) (unit_at 0 []) =
     Some (Inr (True, unit_at 2 [(''B'', True), (''B'', True), (''B'', False), (loop_name, True)])) \<and>
   analyses_valid (\<lambda>_ p. p) (tunit (unit_at 2 [(''B'', True), (''B'', True), (''B'', False), (loop_name, True)]
     :: (nat, nat) pass_state))"
proof -
  have h1: "leaves_satisfy (\<lambda>n f. leaf_contract (\<lambda>_ p. p) f) (Loop (Some (countdown_leaf 2)))"
    by (simp add: countdown_leaf_def leaf_contract_def)
  have h2: "analyses_valid (\<lambda>_ p. p) (tunit (unit_at 0 [] :: (nat, nat) pass_state))"
    by (simp add: unit_at_def analyses_valid_def)
  have h3: "apply_tr (Loop (Some (countdown_leaf 2))) (unit_at 0 []) =
     Some (Inr (True, unit_at 2 [(''B'', True), (''B'', True), (''B'', False), (loop_name, True)]))"
    by (simp add: pass_eval)
  show ?thesis using h1 h2 h3 apply_tr_analyses_valid [OF h1 h2 h3] by simp
qed

theorem mk_sequence_checked_witness:
  "wf_transformer (countdown_leaf 1) \<and>
   mk_sequence True [Some (countdown_leaf 1), None] = Inl Assertion_failure \<and>
   (\<exists>t. mk_sequence True [Some (countdown_leaf 1)] = Inr t \<and> wf_transformer t)"
proof -
  have w: "wf_transformer (countdown_leaf 1)" by (simp add: countdown_leaf_def)
  have h1: "\<forall>x. Some x \<in> set [Some (countdown_leaf 1), None] \<longrightarrow> wf_transformer x"
    using w by simp
  have h2: "\<forall>x. Some x \<in> set [Some (countdown_leaf 1)] \<longrightarrow> wf_transformer x"
    using w by simp
  show ?thesis using w mk_sequence_checked [OF h1] mk_sequence_checked [OF h2] by simp
qed

theorem loop_idempotent_convergence_witness:
  "apply_tr (Loop (Some (countdown_leaf 2))) (unit_at 5 []) =
     Some (Inr (False, unit_at 5 [(''B'', False), (loop_name, False)])) \<and>
   (\<exists>s''. apply_tr (Loop (Some (countdown_leaf 2))) (unit_at 5 [(''B'', False), (loop_name, False)]) =
      Some (Inr (False, s'')) \<and> tunit s'' = tunit (unit_at 5 [(''B'', False), (loop_name, False)] :: (nat, nat) pass_state))"
proof -
  have stable: "run_unit (countdown_leaf 2) u = Some (Inr (False, u'))
      \<Longrightarrow> run_unit (countdown_leaf 2) u' = Some (Inr (False, u'))" for u u' :: "(nat, nat) translation_unit"
    by (simp add: countdown_leaf_def split: if_splits)
  have run: "apply_tr (Loop (Some (countdown_leaf 2))) (unit_at 5 []) =
     Some (Inr (False, unit_at 5 [(''B'', False), (loop_name, False)]))"
    by (simp add: pass_eval)
  show ?thesis using run loop_idempotent_convergence [OF stable run] by simp
qed

theorem loop_free_returns_witness:
  "loop_free (Sequence [Some (countdown_leaf 1), None]) \<and>
   apply_tr (Sequence [Some (countdown_leaf 1), None]) (unit_at 0 []) \<noteq> None"
proof -
  have h: "loop_free (Sequence [Some (countdown_leaf 1), None])" by (simp add: countdown_leaf_def)
  show ?thesis by (rule conjI [OF h loop_free_returns [OF h]])
qed

theorem apply_tr_error_source_witness:
  "apply_tr (Sequence [Some (countdown_leaf 1), Some (Leaf ''F'' (\<lambda>_. Inl ''boom''))]) (unit_at 0 []) =
     Some (Inl (Pass_failure ''boom'')) \<and>
   (Pass_failure ''boom'' = Null_dereference \<or>
    (\<exists>n f u msg. (n, f) \<in> set (leaves (Sequence [Some (countdown_leaf 1), Some (Leaf ''F'' (\<lambda>_. Inl ''boom''))])) \<and>
       f u = Inl msg \<and> Pass_failure ''boom'' = Pass_failure msg))"
proof -
  have h: "apply_tr (Sequence [Some (countdown_leaf 1), Some (Leaf ''F'' (\<lambda>_. Inl ''boom''))]) (unit_at 0 []) =
     Some (Inl (Pass_failure ''boom''))"
    by (simp add: pass_eval)
  show ?thesis by (rule conjI [OF h apply_tr_error_source [OF h]])
qed

theorem loop_transform_wraps_witness:
  "changes (own_apply apply_tr (Some (countdown_leaf (2 ^ 32 + 1)))) (2 ^ 32 + 1) (unit_at 0 [])
     (unit_at (2 ^ 32 + 1) (replicate (2 ^ 32 + 1) (''B'', True))) \<and>
   own_apply apply_tr (Some (countdown_leaf (2 ^ 32 + 1))) (unit_at (2 ^ 32 + 1) (replicate (2 ^ 32 + 1) (''B'', True))) =
     Some (Inr (False, unit_at (2 ^ 32 + 1) (replicate (2 ^ 32 + 1) (''B'', True) @ [(''B'', False)]))) \<and>
   loop_transform apply_tr (Some (countdown_leaf (2 ^ 32 + 1))) (unit_at 0 []) =
     Some (Inr (True, unit_at (2 ^ 32 + 1) (replicate (2 ^ 32 + 1) (''B'', True) @ [(''B'', False)])))"
proof -
  let ?k = "2 ^ 32 + 1 :: nat"
  have h1: "changes (own_apply apply_tr (Some (countdown_leaf ?k))) ?k (unit_at 0 [])
     (unit_at ?k (replicate ?k (''B'', True)))"
    using countdown_changes [of 0 ?k ?k "[]"] by (simp only: own_apply_Some_fun append_Nil add_0 order_refl)
  have h2: "own_apply apply_tr (Some (countdown_leaf ?k)) (unit_at ?k (replicate ?k (''B'', True))) =
     Some (Inr (False, unit_at ?k (replicate ?k (''B'', True) @ [(''B'', False)])))"
    by (simp only: own_apply_Some countdown_step) simp
  show ?thesis using h1 h2 loop_transform_wraps [OF h1 h2] by simp
qed

end
